theory Spec2Isabelle
  imports Complex_Main "HOL-Library.Char_ord" "HOL-Library.List_Lexorder" "HOL-Library.AList"
begin


section \<open>The durable store (docs/supabase-schema.sql)\<close>

text \<open>
  The schema is embedded table by table. A column without \<open>NOT NULL\<close> is an
  \<open>option\<close>; \<open>UUID\<close> values are natural numbers; a \<open>TIMESTAMP WITH TIME ZONE\<close> is the
  number of milliseconds since the epoch; a \<open>DECIMAL(15,3)\<close> value is the integer
  number of thousandths it denotes (so \<open>47.000\<close> is \<open>47000\<close>), which makes the
  column's scale of three fractional digits part of the type.
\<close>

type_synonym uuid = nat
type_synonym timestamptz = int
type_synonym decimal = int

text \<open>\<open>CREATE TABLE items\<close>; the fields carry the alias \<open>i\<close> the view gives the table.\<close>

record item =
  i_id :: uuid
  i_item_code :: string
  i_item_name :: string
  i_category :: "string option"
  i_unit :: "string option"
  i_created_at :: "timestamptz option"
  i_updated_at :: "timestamptz option"

text \<open>\<open>CREATE TABLE stock_levels\<close>, alias \<open>sl\<close>. Only the primary key is \<open>NOT NULL\<close>.\<close>

record stock_level =
  sl_id :: uuid
  sl_item_id :: "uuid option"
  sl_current_stock :: "decimal option"
  sl_physical_baseline :: "decimal option"
  sl_tally_delta :: "decimal option"
  sl_last_sync :: "timestamptz option"
  sl_sync_source :: "string option"

text \<open>\<open>CREATE TABLE sync_logs\<close>.\<close>

record sync_log =
  log_id :: uuid
  sync_timestamp :: "timestamptz option"
  items_processed :: "int option"
  status :: string
  error_message :: "string option"
  duration_seconds :: "int option"

record store =
  items :: "item list"
  stock_levels :: "stock_level list"
  sync_logs :: "sync_log list"

definition empty_store :: store where
  "empty_store = \<lparr>items = [], stock_levels = [], sync_logs = []\<rparr>"

subsection \<open>Row level security\<close>

text \<open>
  \<open>ENABLE ROW LEVEL SECURITY\<close> on the three tables, each with the same two policies:
  \<open>FOR SELECT USING (auth.role() = 'authenticated')\<close> and
  \<open>FOR ALL USING (auth.role() = 'service_role')\<close>. \<open>auth.role()\<close> is the role of the key or
  session a request comes with; a request under the anon key has the role \<open>anon\<close>, for
  which there is no policy, so it sees no row of a table.
\<close>

datatype role = Anon | Authenticated | ServiceRole

definition may_select :: "role \<Rightarrow> bool" where
  "may_select r \<longleftrightarrow> r = Authenticated \<or> r = ServiceRole"

definition visible_stock_levels :: "role \<Rightarrow> store \<Rightarrow> stock_level list" where
  "visible_stock_levels r s = (if may_select r then stock_levels s else [])"

subsection \<open>The view \<open>inventory_view\<close>\<close>

text \<open>
  A row of the view; the client's type \<open>InventoryItem\<close> names the same columns. The
  view is read with the rights of its owner, who owns the tables and is not restricted by
  their policies; \<open>SELECT\<close> on it is granted to \<open>authenticated\<close> and \<open>anon\<close>.
\<close>

record inventory_row =
  v_id :: uuid
  v_item_code :: string
  v_item_name :: string
  v_category :: "string option"
  v_unit :: "string option"
  v_current_stock :: decimal
  v_physical_baseline :: decimal
  v_tally_delta :: decimal
  v_last_sync :: "timestamptz option"
  v_sync_source :: string

text \<open>\<open>COALESCE(x, d)\<close> with a non-null second argument, and with a nullable one.\<close>

definition coalesce :: "'a option \<Rightarrow> 'a \<Rightarrow> 'a" where
  "coalesce x d = (case x of None \<Rightarrow> d | Some v \<Rightarrow> v)"

definition coalesce_null :: "'a option \<Rightarrow> 'a option \<Rightarrow> 'a option" where
  "coalesce_null x y = (case x of None \<Rightarrow> y | Some v \<Rightarrow> Some v)"

text \<open>
  \<open>items i LEFT JOIN stock_levels sl ON i.id = sl.item_id\<close>: every item is paired with
  each stock level that refers to it, and with the all-NULL row (\<open>None\<close>) when none does.
  A stock level whose \<open>item_id\<close> is NULL matches no item.
\<close>

definition left_join :: "item list \<Rightarrow> stock_level list \<Rightarrow> (item \<times> stock_level option) list" where
  "left_join its sls =
     concat (map (\<lambda>i. case filter (\<lambda>sl. sl_item_id sl = Some (i_id i)) sls of
                          [] \<Rightarrow> [(i, None)]
                        | ms \<Rightarrow> map (\<lambda>sl. (i, Some sl)) ms) its)"

text \<open>The \<open>SELECT\<close> list of the view, applied to one joined row.\<close>

definition view_row :: "item \<Rightarrow> stock_level option \<Rightarrow> inventory_row" where
  "view_row i sl =
     \<lparr>v_id = i_id i,
      v_item_code = i_item_code i,
      v_item_name = i_item_name i,
      v_category = i_category i,
      v_unit = i_unit i,
      v_current_stock = coalesce (Option.bind sl sl_current_stock) 0,
      v_physical_baseline = coalesce (Option.bind sl sl_physical_baseline) 0,
      v_tally_delta = coalesce (Option.bind sl sl_tally_delta) 0,
      v_last_sync = coalesce_null (Option.bind sl sl_last_sync) (i_created_at i),
      v_sync_source = coalesce (Option.bind sl sl_sync_source) ''manual''\<rparr>"

text \<open>\<open>ORDER BY i.item_name\<close>; strings are compared character by character.\<close>

definition inventory_view :: "store \<Rightarrow> inventory_row list" where
  "inventory_view s =
     sort_key v_item_name
       (map (\<lambda>(i, sl). view_row i sl) (left_join (items s) (stock_levels s)))"


subsection \<open>Statements against the schema\<close>

text \<open>
  What PostgreSQL does with a data-changing statement of the service role, to which the
  policies give full access, under the constraints the schema declares: the primary
  keys, \<open>UNIQUE(item_code)\<close>, \<open>UNIQUE(item_id)\<close> (which, as SQL has it, never compares
  NULLs), the foreign key \<open>item_id REFERENCES items(id) ON DELETE CASCADE\<close> (which a NULL
  \<open>item_id\<close> satisfies), the ranges of \<open>DECIMAL(15,3)\<close> and of \<open>INTEGER\<close>, the \<open>CHECK\<close>
  on \<open>sync_logs.status\<close>, and the trigger \<open>update_items_updated_at\<close>. A value out of
  range is refused before the constraints of the row are looked at.
  An \<open>INSERT\<close> takes the row with its defaults already filled in; an \<open>UPDATE\<close>
  replaces the row that has the given primary key and leaves the key itself alone.
  The length limits of the \<open>VARCHAR\<close> columns are not modelled.
\<close>

datatype db_error =
  UniqueViolation | ForeignKeyViolation | CheckViolation | NumericOverflow

text \<open>\<open>DECIMAL(15,3)\<close>: fifteen digits in all, so fewer than \<open>10^15\<close> thousandths.\<close>

definition decimal_15_3 :: "decimal option \<Rightarrow> bool" where
  "decimal_15_3 x = (case x of None \<Rightarrow> True | Some n \<Rightarrow> \<bar>n\<bar> < 10 ^ 15)"

definition quantities_ok :: "stock_level \<Rightarrow> bool" where
  "quantities_ok r \<longleftrightarrow>
     decimal_15_3 (sl_current_stock r) \<and> decimal_15_3 (sl_physical_baseline r) \<and>
     decimal_15_3 (sl_tally_delta r)"

text \<open>\<open>INTEGER\<close>: 32 bits, signed.\<close>

definition int4 :: "int option \<Rightarrow> bool" where
  "int4 x = (case x of None \<Rightarrow> True | Some n \<Rightarrow> - (2 ^ 31) \<le> n \<and> n < 2 ^ 31)"

definition integers_ok :: "sync_log \<Rightarrow> bool" where
  "integers_ok r \<longleftrightarrow> int4 (items_processed r) \<and> int4 (duration_seconds r)"

text \<open>\<open>CHECK (status IN ('SUCCESS', 'FAILED', 'ERROR'))\<close>.\<close>

definition status_check :: "string \<Rightarrow> bool" where
  "status_check st \<longleftrightarrow> st \<in> set [''SUCCESS'', ''FAILED'', ''ERROR'']"

text \<open>The non-null \<open>item_id\<close>s of a list of stock levels, in row order.\<close>

definition item_ids_of :: "stock_level list \<Rightarrow> uuid list" where
  "item_ids_of sls = concat (map (\<lambda>sl. case sl_item_id sl of None \<Rightarrow> [] | Some k \<Rightarrow> [k]) sls)"

definition fk_ok :: "item list \<Rightarrow> stock_level \<Rightarrow> bool" where
  "fk_ok its r = (case sl_item_id r of None \<Rightarrow> True | Some k \<Rightarrow> k \<in> set (map i_id its))"

definition insert_item :: "item \<Rightarrow> store \<Rightarrow> db_error + store" where
  "insert_item r s =
     (if i_id r \<in> set (map i_id (items s)) then Inl UniqueViolation
      else if i_item_code r \<in> set (map i_item_code (items s)) then Inl UniqueViolation
      else Inr (s\<lparr>items := items s @ [r]\<rparr>))"

text \<open>
  \<open>UPDATE items SET ... WHERE id = ...\<close>. The trigger runs \<open>update_updated_at_column\<close>
  before the row is written: \<open>NEW.updated_at = NOW()\<close>, whatever the statement set.
\<close>

definition update_updated_at_column :: "timestamptz \<Rightarrow> item \<Rightarrow> item" where
  "update_updated_at_column now new = new\<lparr>i_updated_at := Some now\<rparr>"

definition update_item :: "timestamptz \<Rightarrow> item \<Rightarrow> store \<Rightarrow> db_error + store" where
  "update_item now r s =
     (if i_item_code r \<in> set (map i_item_code (filter (\<lambda>x. i_id x \<noteq> i_id r) (items s)))
           \<and> i_id r \<in> set (map i_id (items s))
      then Inl UniqueViolation
      else Inr (s\<lparr>items := map (\<lambda>x. if i_id x = i_id r then update_updated_at_column now r else x)
                                (items s)\<rparr>))"

text \<open>\<open>DELETE FROM items WHERE id = k\<close>, with \<open>ON DELETE CASCADE\<close> on \<open>stock_levels\<close>.\<close>

definition delete_item :: "uuid \<Rightarrow> store \<Rightarrow> db_error + store" where
  "delete_item k s =
     Inr (s\<lparr>items := filter (\<lambda>x. i_id x \<noteq> k) (items s),
            stock_levels := filter (\<lambda>sl. sl_item_id sl \<noteq> Some k) (stock_levels s)\<rparr>)"

definition insert_stock_level :: "stock_level \<Rightarrow> store \<Rightarrow> db_error + store" where
  "insert_stock_level r s =
     (if \<not> quantities_ok r then Inl NumericOverflow
      else if sl_id r \<in> set (map sl_id (stock_levels s)) then Inl UniqueViolation
      else if (case sl_item_id r of None \<Rightarrow> False
               | Some k \<Rightarrow> k \<in> set (item_ids_of (stock_levels s))) then Inl UniqueViolation
      else if \<not> fk_ok (items s) r then Inl ForeignKeyViolation
      else Inr (s\<lparr>stock_levels := stock_levels s @ [r]\<rparr>))"

definition update_stock_level :: "stock_level \<Rightarrow> store \<Rightarrow> db_error + store" where
  "update_stock_level r s =
     (if sl_id r \<notin> set (map sl_id (stock_levels s)) then Inr s
      else if \<not> quantities_ok r then Inl NumericOverflow
      else if (case sl_item_id r of None \<Rightarrow> False
               | Some k \<Rightarrow> k \<in> set (item_ids_of (filter (\<lambda>x. sl_id x \<noteq> sl_id r) (stock_levels s))))
      then Inl UniqueViolation
      else if \<not> fk_ok (items s) r then Inl ForeignKeyViolation
      else Inr (s\<lparr>stock_levels := map (\<lambda>x. if sl_id x = sl_id r then r else x) (stock_levels s)\<rparr>))"

definition delete_stock_level :: "uuid \<Rightarrow> store \<Rightarrow> db_error + store" where
  "delete_stock_level k s = Inr (s\<lparr>stock_levels := filter (\<lambda>x. sl_id x \<noteq> k) (stock_levels s)\<rparr>)"

definition insert_sync_log :: "sync_log \<Rightarrow> store \<Rightarrow> db_error + store" where
  "insert_sync_log r s =
     (if \<not> integers_ok r then Inl NumericOverflow
      else if \<not> status_check (status r) then Inl CheckViolation
      else if log_id r \<in> set (map log_id (sync_logs s)) then Inl UniqueViolation
      else Inr (s\<lparr>sync_logs := sync_logs s @ [r]\<rparr>))"

definition update_sync_log :: "sync_log \<Rightarrow> store \<Rightarrow> db_error + store" where
  "update_sync_log r s =
     (if log_id r \<notin> set (map log_id (sync_logs s)) then Inr s
      else if \<not> integers_ok r then Inl NumericOverflow
      else if \<not> status_check (status r) then Inl CheckViolation
      else Inr (s\<lparr>sync_logs := map (\<lambda>x. if log_id x = log_id r then r else x) (sync_logs s)\<rparr>))"

definition delete_sync_log :: "uuid \<Rightarrow> store \<Rightarrow> db_error + store" where
  "delete_sync_log k s = Inr (s\<lparr>sync_logs := filter (\<lambda>x. log_id x \<noteq> k) (sync_logs s)\<rparr>)"

datatype statement =
  InsertItem item | UpdateItem item | DeleteItem uuid
| InsertStockLevel stock_level | UpdateStockLevel stock_level | DeleteStockLevel uuid
| InsertSyncLog sync_log | UpdateSyncLog sync_log | DeleteSyncLog uuid

text \<open>One statement, executed at the time \<open>now\<close>.\<close>

fun exec :: "timestamptz \<Rightarrow> statement \<Rightarrow> store \<Rightarrow> db_error + store" where
  "exec now (InsertItem r) s = insert_item r s"
| "exec now (UpdateItem r) s = update_item now r s"
| "exec now (DeleteItem k) s = delete_item k s"
| "exec now (InsertStockLevel r) s = insert_stock_level r s"
| "exec now (UpdateStockLevel r) s = update_stock_level r s"
| "exec now (DeleteStockLevel k) s = delete_stock_level k s"
| "exec now (InsertSyncLog r) s = insert_sync_log r s"
| "exec now (UpdateSyncLog r) s = update_sync_log r s"
| "exec now (DeleteSyncLog k) s = delete_sync_log k s"

text \<open>
  A session is a list of timed statements; a statement the store rejects changes nothing
  and the session goes on.
\<close>

definition attempt :: "timestamptz \<times> statement \<Rightarrow> store \<Rightarrow> store" where
  "attempt ts s = (case exec (fst ts) (snd ts) s of Inl e \<Rightarrow> s | Inr s' \<Rightarrow> s')"

definition session :: "(timestamptz \<times> statement) list \<Rightarrow> store \<Rightarrow> store" where
  "session stmts s = fold attempt stmts s"


subsection \<open>The function \<open>get_latest_sync_timestamp\<close>\<close>

text \<open>
  \<open>SELECT MAX(last_sync) FROM stock_levels WHERE sync_source = 'tally_sync'\<close>.
  \<open>tally_sync_times\<close> are the values \<open>MAX\<close> aggregates: the non-null \<open>last_sync\<close> of the
  selected rows. \<open>MAX\<close> over no value is NULL. The function is not declared
  \<open>SECURITY DEFINER\<close>, so it runs with the rights of its caller and selects from the rows
  of \<open>stock_levels\<close> the caller's role may see.
\<close>

definition tally_sync_times :: "stock_level list \<Rightarrow> timestamptz list" where
  "tally_sync_times sls =
     concat (map (\<lambda>sl. case sl_last_sync sl of None \<Rightarrow> [] | Some t \<Rightarrow> [t])
               (filter (\<lambda>sl. sl_sync_source sl = Some ''tally_sync'') sls))"

definition sql_max :: "timestamptz list \<Rightarrow> timestamptz option" where
  "sql_max ts = (case ts of [] \<Rightarrow> None | t # ts' \<Rightarrow> Some (fold max ts' t))"

definition get_latest_sync_timestamp :: "role \<Rightarrow> store \<Rightarrow> timestamptz option" where
  "get_latest_sync_timestamp r s = sql_max (tally_sync_times (visible_stock_levels r s))"

section \<open>The read-side client (mobile-app)\<close>

subsection \<open>The hook \<open>useInventory\<close>\<close>

text \<open>
  A call of the Supabase client resolves to \<open>{ data, error }\<close>: either an error or the
  data. The error is an \<open>Error\<close> object with its message, or some other value.
\<close>

datatype js_error = Error string | NotAnError

datatype 'a response = Failed js_error | Data 'a

text \<open>What the two calls of \<open>fetchItems\<close> resolve to.\<close>

record backend =
  inventory_view_response :: "inventory_row list option response"
  latest_sync_response :: "timestamptz option response"

text \<open>
  The backend that answers from the store \<open>s\<close>:
  \<open>from('inventory_view').select('*').order('item_name')\<close> and
  \<open>rpc('get_latest_sync_timestamp')\<close>. The client is created with the anon key
  (\<open>createClient(supabaseUrl, supabaseAnonKey)\<close>; the setup guide: ``use anon key for
  mobile app'') and the app never signs in, so both requests come with the role \<open>anon\<close>.
\<close>

definition online :: "store \<Rightarrow> backend" where
  "online s =
     \<lparr>inventory_view_response = Data (Some (sort_key v_item_name (inventory_view s))),
      latest_sync_response = Data (get_latest_sync_timestamp Anon s)\<rparr>"

text \<open>The four \<open>useState\<close> cells of the hook, with their initial values.\<close>

record hook_state =
  st_items :: "inventory_row list"
  st_loading :: bool
  st_error :: "string option"
  st_lastSync :: "timestamptz option"

definition initial_state :: hook_state where
  "initial_state = \<lparr>st_items = [], st_loading = True, st_error = None, st_lastSync = None\<rparr>"

text \<open>
  \<open>fetchItems\<close>, from the state it starts in to the state it leaves when its promise
  settles. A failed first call is thrown and caught, so the second call is not made;
  \<open>data || []\<close> takes a null \<open>data\<close> for no rows; the second call's result is stored
  only under \<open>!syncError && syncData\<close>, and a timestamp string is never falsy.
\<close>

definition fetchItems :: "backend \<Rightarrow> hook_state \<Rightarrow> hook_state" where
  "fetchItems b st =
     (let st1 = st\<lparr>st_loading := True, st_error := None\<rparr> in
      case inventory_view_response b of
        Failed err \<Rightarrow>
          st1\<lparr>st_error := Some (case err of Error m \<Rightarrow> m | NotAnError \<Rightarrow> ''Failed to fetch inventory''),
              st_loading := False\<rparr>
      | Data data \<Rightarrow>
          (let st2 = st1\<lparr>st_items := (case data of None \<Rightarrow> [] | Some rows \<Rightarrow> rows)\<rparr>;
               st3 = (case latest_sync_response b of
                        Data (Some syncData) \<Rightarrow> st2\<lparr>st_lastSync := Some syncData\<rparr>
                      | _ \<Rightarrow> st2)
           in st3\<lparr>st_loading := False\<rparr>))"

text \<open>
  The requests the hook sends. \<open>fetchItems\<close> selects from the view and, unless that
  failed, calls the function; the effect that runs on mount calls \<open>fetchItems\<close> and
  subscribes to the changes of a table.
\<close>

datatype request =
  Select string string string
| Rpc string
| PostgresChanges string string string

definition fetchItems_requests :: "backend \<Rightarrow> request list" where
  "fetchItems_requests b =
     Select ''inventory_view'' ''*'' ''item_name'' #
     (case inventory_view_response b of
        Failed err \<Rightarrow> []
      | Data data \<Rightarrow> [Rpc ''get_latest_sync_timestamp''])"

definition useEffect_requests :: "backend \<Rightarrow> request list" where
  "useEffect_requests b =
     fetchItems_requests b @ [PostgresChanges ''*'' ''public'' ''stock_levels'']"

text \<open>
  The relation of the schema a request reads: the one it selects from, the one the body
  of the function selects from, the one whose changes it listens to.
\<close>

fun relation_read :: "request \<Rightarrow> string" where
  "relation_read (Select rel cols ord) = rel"
| "relation_read (Rpc f) = (if f = ''get_latest_sync_timestamp'' then ''stock_levels'' else f)"
| "relation_read (PostgresChanges ev sch tab) = tab"

subsection \<open>The component \<open>InventoryList\<close>\<close>





section \<open>The sync engine\<close>

text \<open>
  The engine itself (\<open>python-sync/tally_sync.py\<close>) is not among the sources: only the
  schema it writes to, its configuration and its guides are. Its four stages are
  therefore modelled from the specification, section 4, and every definition of this
  section says so. Quantities are decimals with the three fractional digits of the
  domain's unit precision, the type the store keeps them in.
\<close>

text \<open>
  Modelled from the spec: an item code is a string (section 3) and a date a day number
  (section 4.1, \<open>since: date\<close>); neither type is declared in the sources.
\<close>

type_synonym item_code = string
type_synonym date = int

text \<open>
  Modelled from the spec: a whole number of units as a decimal quantity
  (section 4.3, ``exact to at least 3 decimal places'').
\<close>

definition units :: "int \<Rightarrow> decimal" where
  "units n = n * 1000"

subsection \<open>Source connector\<close>

text \<open>
  Modelled from the spec: a row of \<open>fetchStockItems\<close> (section 4.1),
  \<open>{item_code, item_name, category, unit, closing_balance}\<close>; the connector is missing
  from the sources.
\<close>

record stock_item_row =
  si_item_code :: item_code
  si_item_name :: string
  si_category :: string
  si_unit :: string
  si_closing_balance :: decimal

text \<open>
  Modelled from the spec: a row of \<open>fetchMovements\<close> (section 4.1),
  \<open>{item_code, quantity_delta}\<close>, the net change of the item within the window.
\<close>

record movement_row =
  mv_item_code :: item_code
  mv_quantity_delta :: decimal

text \<open>
  Modelled from the spec: \<open>ConnectionError\<close> (sections 4.1 and 7): the source is
  unreachable, or the caller's time bound is exceeded, a distinguishable subtype.
\<close>

datatype connection_error = Unreachable | Timeout

text \<open>
  Modelled from the spec: a source connector (section 4.1), one per company, as what
  its two queries return; a query fails as a whole and never returns partial rows.
\<close>

record connector =
  company_name :: string
  fetchStockItems :: "connection_error + stock_item_row list"
  fetchMovements :: "date \<Rightarrow> connection_error + movement_row list"

text \<open>
  Modelled from the spec: one connector queried for both kinds of rows (section 4.2,
  ``query each connector independently''); the connector fails if either query does.
\<close>

definition query_connector ::
  "date \<Rightarrow> connector \<Rightarrow> connection_error + (stock_item_row list \<times> movement_row list)" where
  "query_connector since c =
     (case fetchStockItems c of
        Inl e \<Rightarrow> Inl e
      | Inr its \<Rightarrow> (case fetchMovements c since of
                      Inl e \<Rightarrow> Inl e
                    | Inr mvs \<Rightarrow> Inr (its, mvs)))"

subsection \<open>Multi-source aggregator\<close>

text \<open>
  Modelled from the spec: the attributes of an item (section 3): name, category, unit.
\<close>

record item_attrs =
  a_item_name :: string
  a_category :: string
  a_unit :: string

text \<open>
  Modelled from the spec: the result of \<open>aggregate\<close> (section 4.2),
  \<open>{items, deltas, failures}\<close>. The two mappings are association lists with one entry
  per key, in the order the keys were first seen.
\<close>

record aggregation =
  agg_items :: "(item_code \<times> item_attrs) list"
  agg_deltas :: "(item_code \<times> decimal) list"
  agg_failures :: "(string \<times> connection_error) list"

text \<open>Modelled from the spec: \<open>AggregationError\<close> (sections 4.2 and 7).\<close>

datatype aggregation_error = AggregationError

text \<open>Modelled from the spec: the aggregation before any connector is merged.\<close>

definition empty_aggregation :: aggregation where
  "empty_aggregation = \<lparr>agg_items = [], agg_deltas = [], agg_failures = []\<rparr>"

text \<open>
  Modelled from the spec: summing into the delta mapping (section 4.2, ``deltas are
  summed per item_code''); a key not yet present counts as zero.
\<close>

definition add_delta :: "item_code \<Rightarrow> decimal \<Rightarrow> (item_code \<times> decimal) list \<Rightarrow> (item_code \<times> decimal) list" where
  "add_delta c q ds = AList.update c (coalesce (map_of ds c) 0 + q) ds"

text \<open>
  Modelled from the spec: merging one stock master row (section 4.2): the attributes
  are overwritten, last writer wins in connector order, and the item enters the delta
  mapping, with nothing added, so that an item known to a source but without movement
  has the delta zero.
\<close>

definition add_stock_item :: "stock_item_row \<Rightarrow> aggregation \<Rightarrow> aggregation" where
  "add_stock_item r agg =
     agg\<lparr>agg_items :=
           AList.update (si_item_code r)
             \<lparr>a_item_name = si_item_name r, a_category = si_category r, a_unit = si_unit r\<rparr>
             (agg_items agg),
         agg_deltas := add_delta (si_item_code r) 0 (agg_deltas agg)\<rparr>"

text \<open>Modelled from the spec: merging one movement row (section 4.2).\<close>

definition add_movement :: "movement_row \<Rightarrow> aggregation \<Rightarrow> aggregation" where
  "add_movement r agg =
     agg\<lparr>agg_deltas := add_delta (mv_item_code r) (mv_quantity_delta r) (agg_deltas agg)\<rparr>"

text \<open>
  Modelled from the spec: one connector's turn (section 4.2): a failure is recorded in
  \<open>failures\<close> and the aggregation goes on; a success is merged.
\<close>

definition aggregate_connector :: "date \<Rightarrow> connector \<Rightarrow> aggregation \<Rightarrow> aggregation" where
  "aggregate_connector since c agg =
     (case query_connector since c of
        Inl e \<Rightarrow> agg\<lparr>agg_failures := agg_failures agg @ [(company_name c, e)]\<rparr>
      | Inr (its, mvs) \<Rightarrow> fold add_movement mvs (fold add_stock_item its agg))"

text \<open>
  Modelled from the spec: \<open>aggregate(connectors, since)\<close> (section 4.2). If all
  connectors fail, the aggregator fails with \<open>AggregationError\<close>.
\<close>

definition aggregate :: "connector list \<Rightarrow> date \<Rightarrow> aggregation_error + aggregation" where
  "aggregate connectors since =
     (let agg = fold (aggregate_connector since) connectors empty_aggregation
      in if length (agg_failures agg) = length connectors then Inl AggregationError
         else Inr agg)"

subsection \<open>Clean-slate calculator\<close>

text \<open>
  Modelled from the spec: a baseline entry (section 3 and the baseline file of
  section 6), keyed by its item code.
\<close>

record baseline_entry =
  b_item_name :: string
  b_physical_count :: decimal
  b_baseline_date :: date
  b_notes :: string

text \<open>
  Modelled from the spec: a computed stock level (section 4.3),
  \<open>{current_stock, physical_baseline, tally_delta}\<close>.
\<close>

record computed_level =
  current_stock :: decimal
  physical_baseline :: decimal
  tally_delta :: decimal

text \<open>
  Modelled from the spec: the rule of section 4.3 for one item:
  \<open>current_stock = physical_baseline + tally_delta\<close>, the baseline being 0 for an item
  without a baseline entry and the delta 0 for an item absent from every source.
\<close>

definition compute_level ::
  "(item_code \<times> baseline_entry) list \<Rightarrow> (item_code \<times> decimal) list \<Rightarrow> item_code \<Rightarrow> computed_level" where
  "compute_level baseline deltas c =
     (let pb = (case map_of baseline c of None \<Rightarrow> 0 | Some e \<Rightarrow> b_physical_count e);
          td = coalesce (map_of deltas c) 0
      in \<lparr>current_stock = pb + td, physical_baseline = pb, tally_delta = td\<rparr>)"

text \<open>
  Modelled from the spec: \<open>compute(baseline, deltas)\<close> (section 4.3), one row for each
  item code of the baseline or of the deltas.
\<close>

definition compute ::
  "(item_code \<times> baseline_entry) list \<Rightarrow> (item_code \<times> decimal) list \<Rightarrow> (item_code \<times> computed_level) list" where
  "compute baseline deltas =
     map (\<lambda>c. (c, compute_level baseline deltas c)) (remdups (map fst baseline @ map fst deltas))"

subsection \<open>Publisher\<close>

text \<open>
  Modelled from the spec: what the publisher is given for one item (section 4.4): the
  item's attributes and its computed level, keyed by \<open>item_code\<close>.
\<close>

record publish_row =
  p_item_code :: item_code
  p_attrs :: item_attrs
  p_level :: computed_level

text \<open>
  Modelled from the spec: \<open>runMeta\<close> (section 4.4): when the run started and which
  connectors failed.
\<close>

record run_meta =
  run_timestamp :: timestamptz
  connector_failures :: "(string \<times> connection_error) list"

text \<open>
  Modelled from the spec: \<open>uuid_generate_v4()\<close> is the schema's default for every
  \<open>id\<close>; a generated id is taken to be one the table does not hold yet.
\<close>

definition fresh_uuid :: "uuid list \<Rightarrow> uuid" where
  "fresh_uuid ks = Suc (fold max ks 0)"

text \<open>
  Modelled from the spec: the upsert of an item, keyed by \<open>item_code\<close> (section 4.4).
  A new item is inserted with the schema's defaults for \<open>id\<close>, \<open>created_at\<close> and
  \<open>updated_at\<close>; a known one is updated in place when its name, category or unit changed
  upstream (section 3) and is left untouched, with no statement issued, when they did
  not. A statement is run by the store, so the constraints and the trigger apply. The id
  of the row is returned.
\<close>

definition upsert_item ::
  "timestamptz \<Rightarrow> item_code \<Rightarrow> item_attrs \<Rightarrow> store \<Rightarrow> db_error + (store \<times> uuid)" where
  "upsert_item now c a s =
     (case find (\<lambda>x. i_item_code x = c) (items s) of
        None \<Rightarrow>
          (let r = \<lparr>i_id = fresh_uuid (map i_id (items s)), i_item_code = c,
                    i_item_name = a_item_name a, i_category = Some (a_category a),
                    i_unit = Some (a_unit a), i_created_at = Some now, i_updated_at = Some now\<rparr>
           in case insert_item r s of Inl e \<Rightarrow> Inl e | Inr s' \<Rightarrow> Inr (s', i_id r))
      | Some x \<Rightarrow>
          if i_item_name x = a_item_name a \<and> i_category x = Some (a_category a)
             \<and> i_unit x = Some (a_unit a)
          then Inr (s, i_id x)
          else (case update_item now
                       (x\<lparr>i_item_name := a_item_name a, i_category := Some (a_category a),
                          i_unit := Some (a_unit a)\<rparr>) s of
                  Inl e \<Rightarrow> Inl e
                | Inr s' \<Rightarrow> Inr (s', i_id x)))"

text \<open>
  Modelled from the spec: the upsert of a stock level, keyed by \<open>item_id\<close>
  (section 4.4). The publisher is the sole writer of \<open>last_sync\<close> and \<open>sync_source\<close>; it
  stamps the run's timestamp and the tag \<open>tally_sync\<close>, the one
  \<open>get_latest_sync_timestamp\<close> selects.
\<close>

definition upsert_stock_level ::
  "timestamptz \<Rightarrow> uuid \<Rightarrow> computed_level \<Rightarrow> store \<Rightarrow> db_error + store" where
  "upsert_stock_level ts k l s =
     (case find (\<lambda>x. sl_item_id x = Some k) (stock_levels s) of
        None \<Rightarrow>
          insert_stock_level
            \<lparr>sl_id = fresh_uuid (map sl_id (stock_levels s)), sl_item_id = Some k,
             sl_current_stock = Some (current_stock l),
             sl_physical_baseline = Some (physical_baseline l),
             sl_tally_delta = Some (tally_delta l),
             sl_last_sync = Some ts, sl_sync_source = Some ''tally_sync''\<rparr> s
      | Some x \<Rightarrow>
          update_stock_level
            (x\<lparr>sl_current_stock := Some (current_stock l),
               sl_physical_baseline := Some (physical_baseline l),
               sl_tally_delta := Some (tally_delta l),
               sl_last_sync := Some ts, sl_sync_source := Some ''tally_sync''\<rparr>) s)"

text \<open>
  Modelled from the spec: publishing one item, atomically (section 4.4): the item, then
  its stock level; if either write is rejected the store is left as it was.
\<close>

definition publish_one :: "timestamptz \<Rightarrow> run_meta \<Rightarrow> publish_row \<Rightarrow> store \<Rightarrow> db_error + store" where
  "publish_one now meta row s =
     (case upsert_item now (p_item_code row) (p_attrs row) s of
        Inl e \<Rightarrow> Inl e
      | Inr (s', k) \<Rightarrow> upsert_stock_level (run_timestamp meta) k (p_level row) s')"

text \<open>
  Modelled from the spec: the loop over the items (section 4.4). A rejected write is
  fatal: the loop stops, the items committed before stay, and \<open>itemsProcessed\<close> counts
  them.
\<close>

definition publish_step ::
  "timestamptz \<Rightarrow> run_meta \<Rightarrow> publish_row \<Rightarrow> store \<times> nat \<times> db_error option
     \<Rightarrow> store \<times> nat \<times> db_error option" where
  "publish_step now meta row acc =
     (case acc of (s, n, err) \<Rightarrow>
        (case err of
           Some e \<Rightarrow> (s, n, Some e)
         | None \<Rightarrow> (case publish_one now meta row s of
                      Inl e \<Rightarrow> (s, n, Some e)
                    | Inr s' \<Rightarrow> (s', Suc n, None))))"

text \<open>Modelled from the spec: the loop of section 4.4 from its start.\<close>

definition publish_items ::
  "timestamptz \<Rightarrow> run_meta \<Rightarrow> publish_row list \<Rightarrow> store \<Rightarrow> store \<times> nat \<times> db_error option" where
  "publish_items now meta rows s = fold (publish_step now meta) rows (s, 0, None)"

text \<open>
  Modelled from the spec: the status of a run (section 4.5): \<open>SUCCESS\<close> only if no
  connector failed and every item was published, \<open>ERROR\<close> if the publish was rejected,
  \<open>FAILED\<close> if it was partial.
\<close>

definition run_status :: "run_meta \<Rightarrow> db_error option \<Rightarrow> string" where
  "run_status meta err =
     (if err \<noteq> None then ''ERROR''
      else if connector_failures meta \<noteq> [] then ''FAILED''
      else ''SUCCESS'')"

text \<open>
  Modelled from the spec: the error message of the log row (section 4.4): non-null
  unless the status is \<open>SUCCESS\<close>.
\<close>

definition run_error_message :: "run_meta \<Rightarrow> db_error option \<Rightarrow> string option" where
  "run_error_message meta err =
     (if err \<noteq> None then Some ''publish rejected by the store''
      else if connector_failures meta \<noteq> []
      then Some (''connectors failed: '' @ concat (map (\<lambda>(company, e). company @ ''; '') (connector_failures meta)))
      else None)"

text \<open>
  Modelled from the spec: the one \<open>SyncOperation\<close> row of a run (sections 3 and 4.4),
  written after the upserts.
\<close>

definition write_sync_log ::
  "timestamptz \<Rightarrow> run_meta \<Rightarrow> nat \<Rightarrow> db_error option \<Rightarrow> store \<Rightarrow> db_error + store" where
  "write_sync_log now meta n err s =
     insert_sync_log
       \<lparr>log_id = fresh_uuid (map log_id (sync_logs s)),
        sync_timestamp = Some (run_timestamp meta),
        items_processed = Some (int n),
        status = run_status meta err,
        error_message = run_error_message meta err,
        duration_seconds = Some ((now - run_timestamp meta) div 1000)\<rparr> s"

text \<open>
  Modelled from the spec: what \<open>publish\<close> yields (section 4.4): the store it leaves,
  \<open>itemsProcessed\<close> and the status it logged.
\<close>

record publish_outcome =
  po_store :: store
  po_items_processed :: nat
  po_status :: string

text \<open>
  Modelled from the spec: \<open>publish(items, stockLevels, runMeta)\<close> (section 4.4): the
  upserts, then the log row. The statements of one call all read the same clock \<open>now\<close>.
\<close>

definition publish :: "timestamptz \<Rightarrow> run_meta \<Rightarrow> publish_row list \<Rightarrow> store \<Rightarrow> publish_outcome" where
  "publish now meta rows s =
     (case publish_items now meta rows s of (s1, n, err) \<Rightarrow>
        \<lparr>po_store = (case write_sync_log now meta n err s1 of Inl e \<Rightarrow> s1 | Inr s2 \<Rightarrow> s2),
         po_items_processed = n,
         po_status = run_status meta err\<rparr>)"

subsection \<open>Sync orchestrator\<close>

text \<open>
  Modelled from the spec: where the movement window of an item starts (sections 3 and
  4.3): at the item's own \<open>baseline_date\<close>, which anchors the window
  \<open>[baseline_date, now)\<close>. An item without a baseline entry has no anchor of its own;
  its window starts at the run's default \<open>since\<close> (the configuration's
  \<open>movement_days_back\<close>).
\<close>

definition window_start :: "date \<Rightarrow> (item_code \<times> baseline_entry) list \<Rightarrow> item_code \<Rightarrow> date" where
  "window_start since baseline c =
     (case map_of baseline c of None \<Rightarrow> since | Some e \<Rightarrow> b_baseline_date e)"

text \<open>
  Modelled from the spec: the windows of a run (section 4.3, ``each item may carry a
  different baseline_date''): the default one and one for each baseline date, each once.
\<close>

definition windows :: "date \<Rightarrow> (item_code \<times> baseline_entry) list \<Rightarrow> date list" where
  "windows since baseline = remdups (since # map (\<lambda>(c, e). b_baseline_date e) baseline)"

text \<open>
  Modelled from the spec: the aggregator called once for each window (sections 4.2 and
  4.3); an \<open>AggregationError\<close> of any call aborts the run (section 4.5).
\<close>

fun aggregate_windows ::
  "connector list \<Rightarrow> date list \<Rightarrow> aggregation_error + (date \<times> aggregation) list" where
  "aggregate_windows connectors [] = Inr []"
| "aggregate_windows connectors (d # ds) =
     (case aggregate connectors d of
        Inl e \<Rightarrow> Inl e
      | Inr agg \<Rightarrow> (case aggregate_windows connectors ds of
                       Inl e \<Rightarrow> Inl e
                     | Inr aggs \<Rightarrow> Inr ((d, agg) # aggs)))"

text \<open>
  Modelled from the spec: the delta of one item (section 4.3, ``deltas must be computed
  per-item against its own anchor, not a single global window''): the aggregated delta
  of the window that starts at the item's anchor.
\<close>

definition anchored_delta ::
  "date \<Rightarrow> (item_code \<times> baseline_entry) list \<Rightarrow> (date \<times> aggregation) list \<Rightarrow> item_code \<Rightarrow> decimal" where
  "anchored_delta since baseline aggs c =
     (case map_of aggs (window_start since baseline c) of
        None \<Rightarrow> 0
      | Some agg \<Rightarrow> coalesce (map_of (agg_deltas agg) c) 0)"

text \<open>
  Modelled from the spec: the delta mapping handed to the calculator (section 4.3): one
  entry for each item code a source reported in any window, with the item's anchored
  delta.
\<close>

definition anchored_deltas ::
  "date \<Rightarrow> (item_code \<times> baseline_entry) list \<Rightarrow> (date \<times> aggregation) list
     \<Rightarrow> (item_code \<times> decimal) list" where
  "anchored_deltas since baseline aggs =
     map (\<lambda>c. (c, anchored_delta since baseline aggs c))
       (remdups (concat (map (\<lambda>(d, agg). map fst (agg_deltas agg)) aggs)))"

text \<open>
  Modelled from the spec: the item attributes of a run (section 4.2): those of the
  first window that knows the item; the stock master query does not depend on the
  window.
\<close>

definition source_items :: "(date \<times> aggregation) list \<Rightarrow> (item_code \<times> item_attrs) list" where
  "source_items aggs = concat (map (\<lambda>(d, agg). agg_items agg) aggs)"

text \<open>
  Modelled from the spec: the connector failures of a run (section 4.5), those of every
  window, each company's failure once.
\<close>

definition window_failures :: "(date \<times> aggregation) list \<Rightarrow> (string \<times> connection_error) list" where
  "window_failures aggs = remdups (concat (map (\<lambda>(d, agg). agg_failures agg) aggs))"

text \<open>
  Modelled from the spec: the attributes an item is published with (section 3): those
  of the sources if any source knows the item, else the name of its baseline row with
  the defaults \<open>General\<close> and \<open>Nos\<close>.
\<close>

definition attrs_for ::
  "(item_code \<times> baseline_entry) list \<Rightarrow> (item_code \<times> item_attrs) list \<Rightarrow> item_code \<Rightarrow> item_attrs" where
  "attrs_for baseline its c =
     (case map_of its c of
        Some a \<Rightarrow> a
      | None \<Rightarrow> \<lparr>a_item_name = (case map_of baseline c of None \<Rightarrow> c | Some e \<Rightarrow> b_item_name e),
                 a_category = ''General'', a_unit = ''Nos''\<rparr>)"

text \<open>
  Modelled from the spec: the rows handed to the publisher (section 4.5), one for each
  row of the calculator.
\<close>

definition publish_rows ::
  "(item_code \<times> baseline_entry) list \<Rightarrow> (item_code \<times> item_attrs) list
     \<Rightarrow> (item_code \<times> decimal) list \<Rightarrow> publish_row list" where
  "publish_rows baseline its deltas =
     map (\<lambda>(c, l). \<lparr>p_item_code = c, p_attrs = attrs_for baseline its c, p_level = l\<rparr>)
       (compute baseline deltas)"

text \<open>
  Modelled from the spec: one run (section 4.5): aggregate each window, calculate each
  item against its own window, publish. When every connector fails nothing is published
  and the log row says \<open>ERROR\<close>. The run started at \<open>started\<close>; its writes happen at
  \<open>now\<close>.
\<close>

definition run ::
  "timestamptz \<Rightarrow> timestamptz \<Rightarrow> date \<Rightarrow> (item_code \<times> baseline_entry) list \<Rightarrow> connector list
     \<Rightarrow> store \<Rightarrow> publish_outcome" where
  "run started now since baseline connectors s =
     (case aggregate_windows connectors (windows since baseline) of
        Inl AggregationError \<Rightarrow>
          (let log = \<lparr>log_id = fresh_uuid (map log_id (sync_logs s)),
                      sync_timestamp = Some started, items_processed = Some 0,
                      status = ''ERROR'', error_message = Some ''all connectors failed'',
                      duration_seconds = Some ((now - started) div 1000)\<rparr>
           in \<lparr>po_store = (case insert_sync_log log s of Inl e \<Rightarrow> s | Inr s' \<Rightarrow> s'),
               po_items_processed = 0, po_status = ''ERROR''\<rparr>)
      | Inr aggs \<Rightarrow>
          publish now \<lparr>run_timestamp = started, connector_failures = window_failures aggs\<rparr>
            (publish_rows baseline (source_items aggs) (anchored_deltas since baseline aggs)) s)"

section \<open>Properties of the store\<close>

text \<open>The constraints of the schema, as predicates on a store.\<close>

definition pk_items :: "store \<Rightarrow> bool" where
  "pk_items s \<longleftrightarrow> distinct (map i_id (items s))"

definition unique_item_code :: "store \<Rightarrow> bool" where
  "unique_item_code s \<longleftrightarrow> distinct (map i_item_code (items s))"

definition pk_stock_levels :: "store \<Rightarrow> bool" where
  "pk_stock_levels s \<longleftrightarrow> distinct (map sl_id (stock_levels s))"

definition unique_item_id :: "store \<Rightarrow> bool" where
  "unique_item_id s \<longleftrightarrow> distinct (item_ids_of (stock_levels s))"

definition fk_item_id :: "store \<Rightarrow> bool" where
  "fk_item_id s \<longleftrightarrow> (\<forall>sl \<in> set (stock_levels s). fk_ok (items s) sl)"

definition decimals_in_range :: "store \<Rightarrow> bool" where
  "decimals_in_range s \<longleftrightarrow> (\<forall>sl \<in> set (stock_levels s). quantities_ok sl)"

definition pk_sync_logs :: "store \<Rightarrow> bool" where
  "pk_sync_logs s \<longleftrightarrow> distinct (map log_id (sync_logs s))"

definition check_status :: "store \<Rightarrow> bool" where
  "check_status s \<longleftrightarrow> (\<forall>l \<in> set (sync_logs s). status_check (status l))"

definition schema_ok :: "store \<Rightarrow> bool" where
  "schema_ok s \<longleftrightarrow>
     pk_items s \<and> unique_item_code s \<and> pk_stock_levels s \<and> unique_item_id s \<and>
     fk_item_id s \<and> decimals_in_range s \<and> pk_sync_logs s \<and> check_status s"

text \<open>The stock levels that refer to the item with the id \<open>k\<close>.\<close>

definition stock_levels_of :: "store \<Rightarrow> uuid \<Rightarrow> stock_level list" where
  "stock_levels_of s k = filter (\<lambda>sl. sl_item_id sl = Some k) (stock_levels s)"

text \<open>
  What the publisher leaves in the store for one item: the item row with the attributes
  it was given, and the stock level row of that item with the computed level, the run's
  timestamp and the tag \<open>tally_sync\<close>.
\<close>

definition level_written :: "timestamptz \<Rightarrow> uuid \<Rightarrow> computed_level \<Rightarrow> stock_level \<Rightarrow> bool" where
  "level_written ts k l y \<longleftrightarrow>
     sl_item_id y = Some k \<and> sl_current_stock y = Some (current_stock l) \<and>
     sl_physical_baseline y = Some (physical_baseline l) \<and>
     sl_tally_delta y = Some (tally_delta l) \<and>
     sl_last_sync y = Some ts \<and> sl_sync_source y = Some ''tally_sync''"


definition item_has_attrs :: "item_code \<Rightarrow> item_attrs \<Rightarrow> item \<Rightarrow> bool" where
  "item_has_attrs c a x \<longleftrightarrow>
     i_item_code x = c \<and> i_item_name x = a_item_name a \<and>
     i_category x = Some (a_category a) \<and> i_unit x = Some (a_unit a)"

definition published :: "run_meta \<Rightarrow> publish_row \<Rightarrow> store \<Rightarrow> bool" where
  "published meta row s \<longleftrightarrow>
     (\<exists>x \<in> set (items s). item_has_attrs (p_item_code row) (p_attrs row) x \<and>
        (\<exists>y \<in> set (stock_levels s). level_written (run_timestamp meta) (i_id x) (p_level row) y))"


section \<open>Notions used in the statements\<close>

text \<open>
  The entry of a delta mapping, zero for a key the mapping does not hold; whether a
  connector's queries succeeded, and the movement rows and item codes it then returned;
  the sum of the quantity deltas the rows hold for one item, zero when there is none.
\<close>

definition delta_of :: "(item_code \<times> decimal) list \<Rightarrow> item_code \<Rightarrow> decimal" where
  "delta_of ds c = coalesce (map_of ds c) 0"

definition succeeded :: "date \<Rightarrow> connector \<Rightarrow> bool" where
  "succeeded since k = (case query_connector since k of Inl e \<Rightarrow> False | Inr r \<Rightarrow> True)"

definition movements_of :: "date \<Rightarrow> connector \<Rightarrow> movement_row list" where
  "movements_of since k = (case query_connector since k of Inl e \<Rightarrow> [] | Inr (its, mvs) \<Rightarrow> mvs)"

definition codes_of :: "date \<Rightarrow> connector \<Rightarrow> item_code list" where
  "codes_of since k =
     (case query_connector since k of
        Inl e \<Rightarrow> []
      | Inr (its, mvs) \<Rightarrow> map si_item_code its @ map mv_item_code mvs)"

definition item_delta :: "item_code \<Rightarrow> movement_row list \<Rightarrow> decimal" where
  "item_delta c mvs = sum_list (map mv_quantity_delta (filter (\<lambda>m. mv_item_code m = c) mvs))"


section \<open>Decimals and the client's numbers\<close>

text \<open>The rational number a \<open>DECIMAL(15,3)\<close> value stands for.\<close>

definition dec_value :: "decimal \<Rightarrow> rat" where
  "dec_value n = of_int n / 1000"

text \<open>
  The client's type \<open>InventoryItem\<close> declares \<open>current_stock\<close>, \<open>physical_baseline\<close>
  and \<open>tally_delta\<close> as \<open>number\<close>, an IEEE 754 double. A finite double is \<open>m * 2^e\<close>
  for integers \<open>\<bar>m\<bar> < 2^53\<close> and \<open>-1074 \<le> e \<le> 971\<close>; \<open>scaled q e\<close> is \<open>q / 2^e\<close>,
  the mantissa \<open>q\<close> would have at the exponent \<open>e\<close>.
\<close>

definition scaled :: "rat \<Rightarrow> int \<Rightarrow> rat" where
  "scaled q e = (if 0 \<le> e then q / 2 ^ nat e else q * 2 ^ nat (- e))"

definition is_number :: "rat \<Rightarrow> bool" where
  "is_number q \<longleftrightarrow>
     (\<exists>e \<in> set [- 1074..971]. of_int \<lfloor>scaled q e\<rfloor> = scaled q e \<and> \<bar>\<lfloor>scaled q e\<rfloor>\<bar> < 2 ^ 53)"

section \<open>Concrete stores\<close>

text \<open>
  Two of the items of the schema's sample data and the stock level of the first, as
  inserted at time \<open>0\<close>; the second item has no stock level.
\<close>

definition brake001 :: item where
  "brake001 =
     \<lparr>i_id = 1, i_item_code = ''BRAKE001'', i_item_name = ''Brake Pads Front'',
      i_category = Some ''Brakes'', i_unit = Some ''Set'',
      i_created_at = Some 0, i_updated_at = Some 0\<rparr>"

definition oil001 :: item where
  "oil001 =
     \<lparr>i_id = 3, i_item_code = ''OIL001'', i_item_name = ''Engine Oil 5W30'',
      i_category = Some ''Lubricants'', i_unit = Some ''Liter'',
      i_created_at = Some 0, i_updated_at = Some 0\<rparr>"

definition brake001_level :: stock_level where
  "brake001_level =
     \<lparr>sl_id = 1, sl_item_id = Some 1, sl_current_stock = Some 25000,
      sl_physical_baseline = Some 25000, sl_tally_delta = Some 0,
      sl_last_sync = Some 0, sl_sync_source = Some ''manual''\<rparr>"

definition sample_store :: store where
  "sample_store = \<lparr>items = [brake001, oil001], stock_levels = [brake001_level], sync_logs = []\<rparr>"

text \<open>A stock level that names no item: \<open>INSERT INTO stock_levels (current_stock) VALUES (5)\<close>.\<close>

definition orphan_level :: stock_level where
  "orphan_level =
     \<lparr>sl_id = 1, sl_item_id = None, sl_current_stock = Some 5000,
      sl_physical_baseline = Some 0, sl_tally_delta = Some 0,
      sl_last_sync = Some 0, sl_sync_source = Some ''manual''\<rparr>"

text \<open>Two log rows; the status of \<open>partial_log\<close> is one the \<open>CHECK\<close> does not list.\<close>

definition success_log :: sync_log where
  "success_log =
     \<lparr>log_id = 1, sync_timestamp = Some 0, items_processed = Some 2, status = ''SUCCESS'',
      error_message = None, duration_seconds = Some 4\<rparr>"

text \<open>
  A log row with nothing but a status:
  \<open>INSERT INTO sync_logs (sync_timestamp, items_processed, status) VALUES (NULL, NULL, 'SUCCESS')\<close>.
\<close>

definition bare_log :: sync_log where
  "bare_log =
     \<lparr>log_id = 1, sync_timestamp = None, items_processed = None, status = ''SUCCESS'',
      error_message = None, duration_seconds = None\<rparr>"

definition partial_log :: sync_log where
  "partial_log =
     \<lparr>log_id = 2, sync_timestamp = Some 9, items_processed = Some 1, status = ''PARTIAL'',
      error_message = Some ''one company failed'', duration_seconds = Some 4\<rparr>"

section \<open>Concrete runs\<close>

text \<open>
  The multi-source example: \<open>BRAKE001\<close> moves by +25 in company A and by +20 in
  company B; a third company times out.
\<close>

definition brake_row :: stock_item_row where
  "brake_row =
     \<lparr>si_item_code = ''BRAKE001'', si_item_name = ''Brake Pad Set'', si_category = ''Brakes'',
      si_unit = ''Set'', si_closing_balance = units 25\<rparr>"

definition company_a :: connector where
  "company_a =
     \<lparr>company_name = ''Company A'', fetchStockItems = Inr [brake_row],
      fetchMovements = (\<lambda>since. Inr [\<lparr>mv_item_code = ''BRAKE001'', mv_quantity_delta = units 25\<rparr>])\<rparr>"

definition company_b :: connector where
  "company_b =
     \<lparr>company_name = ''Company B'', fetchStockItems = Inr [brake_row],
      fetchMovements = (\<lambda>since. Inr [\<lparr>mv_item_code = ''BRAKE001'', mv_quantity_delta = units 20\<rparr>])\<rparr>"

definition company_down :: connector where
  "company_down =
     \<lparr>company_name = ''Company C'', fetchStockItems = Inl Timeout,
      fetchMovements = (\<lambda>since. Inl Timeout)\<rparr>"

definition merged_ab :: aggregation where
  "merged_ab =
     \<lparr>agg_items = [(''BRAKE001'', \<lparr>a_item_name = ''Brake Pad Set'', a_category = ''Brakes'', a_unit = ''Set''\<rparr>)],
      agg_deltas = [(''BRAKE001'', units 45)],
      agg_failures = [(''Company C'', Timeout)]\<rparr>"

text \<open>
  The setup guide's example: the baseline file counts 50 of \<open>BRAKE001\<close> on 2024-01-01
  (day 19723), company 1 reports the delta -5 and company 2 the delta +2.
\<close>

definition baseline_50 :: "(item_code \<times> baseline_entry) list" where
  "baseline_50 =
     [(''BRAKE001'', \<lparr>b_item_name = ''Brake Pad Set'', b_physical_count = units 50,
                      b_baseline_date = 19723, b_notes = ''Combined count across all locations''\<rparr>)]"

definition company_1 :: connector where
  "company_1 =
     \<lparr>company_name = ''SP Test 1'', fetchStockItems = Inr [brake_row],
      fetchMovements = (\<lambda>since. Inr [\<lparr>mv_item_code = ''BRAKE001'', mv_quantity_delta = units (- 5)\<rparr>])\<rparr>"

definition company_2 :: connector where
  "company_2 =
     \<lparr>company_name = ''SP Test 2'', fetchStockItems = Inr [brake_row],
      fetchMovements = (\<lambda>since. Inr [\<lparr>mv_item_code = ''BRAKE001'', mv_quantity_delta = units 2\<rparr>])\<rparr>"

definition brake_published :: item where
  "brake_published =
     \<lparr>i_id = 1, i_item_code = ''BRAKE001'', i_item_name = ''Brake Pad Set'',
      i_category = Some ''Brakes'', i_unit = Some ''Set'',
      i_created_at = Some 4000, i_updated_at = Some 4000\<rparr>"

definition brake_level_47 :: stock_level where
  "brake_level_47 =
     \<lparr>sl_id = 1, sl_item_id = Some 1, sl_current_stock = Some (units 47),
      sl_physical_baseline = Some (units 50), sl_tally_delta = Some (units (- 3)),
      sl_last_sync = Some 0, sl_sync_source = Some ''tally_sync''\<rparr>"

definition run_log :: sync_log where
  "run_log =
     \<lparr>log_id = 1, sync_timestamp = Some 0, items_processed = Some 1, status = ''SUCCESS'',
      error_message = None, duration_seconds = Some 4\<rparr>"

definition store_47 :: store where
  "store_47 = \<lparr>items = [brake_published], stock_levels = [brake_level_47], sync_logs = [run_log]\<rparr>"

text \<open>What the aggregator makes of the two companies: the delta -3.\<close>

definition merged_12 :: aggregation where
  "merged_12 =
     \<lparr>agg_items = [(''BRAKE001'', \<lparr>a_item_name = ''Brake Pad Set'', a_category = ''Brakes'', a_unit = ''Set''\<rparr>)],
      agg_deltas = [(''BRAKE001'', units (- 3))],
      agg_failures = []\<rparr>"

text \<open>A second stock level for the item \<open>BRAKE001\<close>, which \<open>UNIQUE(item_id)\<close> rejects.\<close>

definition brake001_second_level :: stock_level where
  "brake001_second_level =
     \<lparr>sl_id = 2, sl_item_id = Some 1, sl_current_stock = Some 1000,
      sl_physical_baseline = Some 1000, sl_tally_delta = Some 0,
      sl_last_sync = Some 5, sl_sync_source = Some ''manual''\<rparr>"

text \<open>The rows and the metadata of the example run.\<close>

definition rows_47 :: "publish_row list" where
  "rows_47 =
     [\<lparr>p_item_code = ''BRAKE001'',
       p_attrs = \<lparr>a_item_name = ''Brake Pad Set'', a_category = ''Brakes'', a_unit = ''Set''\<rparr>,
       p_level = \<lparr>current_stock = units 47, physical_baseline = units 50, tally_delta = units (- 3)\<rparr>\<rparr>]"

definition meta_0 :: run_meta where
  "meta_0 = \<lparr>run_timestamp = 0, connector_failures = []\<rparr>"

section \<open>The schema's constraints are invariants\<close>

lemma distinct_map_replace:
  assumes "distinct (map key xs)" and "distinct (map f xs)"
    and "\<forall>x \<in> set xs. key x \<noteq> k \<longrightarrow> f x \<noteq> v"
  shows "distinct (map (\<lambda>x. if key x = k then v else f x) xs)"
  using assms
proof (induction xs)
  case Nil
  then show ?case by simp
next
  case (Cons x xs)
  then have ih: "distinct (map (\<lambda>x. if key x = k then v else f x) xs)" by simp
  show ?case
  proof (cases "key x = k")
    case True
    with Cons.prems have "\<forall>y \<in> set xs. key y \<noteq> k" by (auto simp: image_iff)
    with Cons.prems have "\<forall>y \<in> set xs. (if key y = k then v else f y) \<noteq> v" by auto
    with True ih show ?thesis by auto
  next
    case False
    with Cons.prems have "f x \<noteq> v" by simp
    moreover from Cons.prems have "\<forall>y \<in> set xs. f y \<noteq> f x" by (auto simp: image_iff)
    ultimately have "\<forall>y \<in> set xs. (if key y = k then v else f y) \<noteq> f x" by auto
    with False ih show ?thesis by auto
  qed
qed

lemma map_key_replace:
  "key r = k \<Longrightarrow> map key (map (\<lambda>x. if key x = k then r else x) xs) = map key xs"
  by (induction xs) auto

lemma map_key_replace_comp:
  "key r = k \<Longrightarrow> map (key \<circ> (\<lambda>x. if key x = k then r else x)) xs = map key xs"
  by (induction xs) auto

lemma item_ids_of_append: "item_ids_of (xs @ ys) = item_ids_of xs @ item_ids_of ys"
  by (simp add: item_ids_of_def)

lemma item_ids_of_Cons:
  "item_ids_of (x # xs) = (case sl_item_id x of None \<Rightarrow> [] | Some k \<Rightarrow> [k]) @ item_ids_of xs"
  by (simp add: item_ids_of_def)

lemma in_item_ids_of:
  "k \<in> set (item_ids_of sls) \<longleftrightarrow> (\<exists>sl \<in> set sls. sl_item_id sl = Some k)"
  by (induction sls) (auto simp: item_ids_of_Cons item_ids_of_def split: option.splits)

lemma item_ids_of_filter:
  "distinct (item_ids_of sls) \<Longrightarrow> distinct (item_ids_of (filter P sls))"
  by (induction sls) (auto simp: item_ids_of_Cons in_item_ids_of item_ids_of_def split: option.splits)

lemma item_ids_of_replace:
  assumes "distinct (map sl_id sls)" and "distinct (item_ids_of sls)"
    and "\<forall>k. sl_item_id r = Some k \<longrightarrow> k \<notin> set (item_ids_of (filter (\<lambda>x. sl_id x \<noteq> sl_id r) sls))"
  shows "distinct (item_ids_of (map (\<lambda>x. if sl_id x = sl_id r then r else x) sls))"
  using assms
proof (induction sls)
  case Nil
  then show ?case by (simp add: item_ids_of_def)
next
  case (Cons x sls)
  then have ih: "distinct (item_ids_of (map (\<lambda>x. if sl_id x = sl_id r then r else x) sls))"
    by (auto simp: item_ids_of_Cons split: option.splits if_splits)
  show ?case
  proof (cases "sl_id x = sl_id r")
    case True
    with Cons.prems(1) have nokey: "\<forall>y \<in> set sls. sl_id y \<noteq> sl_id r"
      by (auto simp: image_iff)
    then have same: "map (\<lambda>x. if sl_id x = sl_id r then r else x) sls = sls"
      by (simp add: map_idI)
    from nokey have filt: "filter (\<lambda>x. sl_id x \<noteq> sl_id r) sls = sls" by simp
    from Cons.prems(2) have "distinct (item_ids_of sls)"
      by (auto simp: item_ids_of_Cons split: option.splits)
    with Cons.prems(3) True same filt show ?thesis
      by (auto simp: item_ids_of_Cons split: option.splits)
  next
    case False
    have "\<forall>k. sl_item_id x = Some k \<longrightarrow>
            k \<notin> set (item_ids_of (map (\<lambda>x. if sl_id x = sl_id r then r else x) sls))"
    proof (intro allI impI notI)
      fix k assume xk: "sl_item_id x = Some k"
        and "k \<in> set (item_ids_of (map (\<lambda>x. if sl_id x = sl_id r then r else x) sls))"
      then obtain y where y: "y \<in> set sls"
        and yk: "sl_item_id (if sl_id y = sl_id r then r else y) = Some k"
        by (auto simp: in_item_ids_of)
      show False
      proof (cases "sl_id y = sl_id r")
        case True
        with yk have "sl_item_id r = Some k" by simp
        moreover have "k \<in> set (item_ids_of (filter (\<lambda>x. sl_id x \<noteq> sl_id r) (x # sls)))"
          using False xk by (auto simp: in_item_ids_of)
        ultimately show False using Cons.prems(3) by blast
      next
        case no: False
        with yk y have "k \<in> set (item_ids_of sls)" by (auto simp: in_item_ids_of)
        with Cons.prems(2) xk show False by (simp add: item_ids_of_Cons)
      qed
    qed
    with False ih show ?thesis by (auto simp: item_ids_of_Cons split: option.splits)
  qed
qed

lemma fk_ok_mono: "fk_ok its sl \<Longrightarrow> set (map i_id its) \<subseteq> set (map i_id its') \<Longrightarrow> fk_ok its' sl"
  by (auto simp: fk_ok_def split: option.splits)

lemma insert_item_schema_ok:
  assumes "schema_ok s" and "insert_item r s = Inr s'"
  shows "schema_ok s'"
proof -
  from assms(2) have fresh: "i_id r \<notin> set (map i_id (items s))"
    "i_item_code r \<notin> set (map i_item_code (items s))"
    and s': "s' = s\<lparr>items := items s @ [r]\<rparr>"
    by (auto simp: insert_item_def split: if_splits)
  have "fk_item_id s'"
    using assms(1) unfolding s' schema_ok_def fk_item_id_def
    by (auto intro: fk_ok_mono)
  with assms(1) fresh show ?thesis
    unfolding s' schema_ok_def
    by (simp add: pk_items_def unique_item_code_def pk_stock_levels_def unique_item_id_def
        decimals_in_range_def pk_sync_logs_def check_status_def)
qed

lemma update_item_schema_ok:
  assumes "schema_ok s" and "update_item now r s = Inr s'"
  shows "schema_ok s'"
proof -
  let ?r = "update_updated_at_column now r"
  from assms(2) have s': "s' = s\<lparr>items := map (\<lambda>x. if i_id x = i_id r then ?r else x) (items s)\<rparr>"
    and uq: "i_id r \<in> set (map i_id (items s)) \<longrightarrow>
             i_item_code r \<notin> set (map i_item_code (filter (\<lambda>x. i_id x \<noteq> i_id r) (items s)))"
    by (auto simp: update_item_def split: if_splits)
  have ids: "map i_id (items s') = map i_id (items s)"
    unfolding s' by (simp add: map_key_replace update_updated_at_column_def)
  have codes: "map i_item_code (items s') =
               map (\<lambda>x. if i_id x = i_id r then i_item_code r else i_item_code x) (items s)"
    unfolding s' by (simp add: update_updated_at_column_def comp_def if_distrib cong: if_cong)
  have "distinct (map i_item_code (items s'))"
  proof (cases "i_id r \<in> set (map i_id (items s))")
    case True
    with uq have "\<forall>x \<in> set (items s). i_id x \<noteq> i_id r \<longrightarrow> i_item_code x \<noteq> i_item_code r"
      by (auto simp: image_iff)
    with assms(1) show ?thesis
      unfolding codes schema_ok_def pk_items_def unique_item_code_def
      by (intro distinct_map_replace) auto
  next
    case False
    then have "map (\<lambda>x. if i_id x = i_id r then i_item_code r else i_item_code x) (items s)
               = map i_item_code (items s)"
      by (intro map_cong) (auto simp: image_iff)
    then have "map i_item_code (items s') = map i_item_code (items s)"
      unfolding codes .
    moreover have "distinct (map i_item_code (items s))"
      using assms(1) by (simp add: schema_ok_def unique_item_code_def)
    ultimately show ?thesis by (simp only:)
  qed
  moreover have rest: "stock_levels s' = stock_levels s" "sync_logs s' = sync_logs s"
    by (simp_all add: s')
  moreover have "fk_item_id s'"
    using assms(1) ids rest unfolding schema_ok_def fk_item_id_def
    by (auto intro: fk_ok_mono)
  ultimately show ?thesis
    using assms(1) ids unfolding schema_ok_def
    by (simp add: pk_items_def unique_item_code_def pk_stock_levels_def unique_item_id_def
        decimals_in_range_def pk_sync_logs_def check_status_def)
qed

lemma delete_item_schema_ok:
  assumes "schema_ok s" and "delete_item k s = Inr s'"
  shows "schema_ok s'"
proof -
  from assms(2) have s': "s' = s\<lparr>items := filter (\<lambda>x. i_id x \<noteq> k) (items s),
            stock_levels := filter (\<lambda>sl. sl_item_id sl \<noteq> Some k) (stock_levels s)\<rparr>"
    by (simp add: delete_item_def)
  have "fk_item_id s'"
    using assms(1) unfolding s' schema_ok_def fk_item_id_def
    by (auto simp: fk_ok_def split: option.splits)
  with assms(1) show ?thesis
    unfolding s' schema_ok_def
    by (simp add: pk_items_def unique_item_code_def pk_stock_levels_def unique_item_id_def
        decimals_in_range_def pk_sync_logs_def check_status_def distinct_map_filter
        item_ids_of_filter)
qed

lemma insert_stock_level_schema_ok:
  assumes "schema_ok s" and "insert_stock_level r s = Inr s'"
  shows "schema_ok s'"
proof -
  from assms(2) have s': "s' = s\<lparr>stock_levels := stock_levels s @ [r]\<rparr>"
    and q: "quantities_ok r" and pk: "sl_id r \<notin> set (map sl_id (stock_levels s))"
    and uq: "\<forall>k. sl_item_id r = Some k \<longrightarrow> k \<notin> set (item_ids_of (stock_levels s))"
    and fk: "fk_ok (items s) r"
    by (auto simp: insert_stock_level_def split: if_splits option.splits)
  have "distinct (item_ids_of (stock_levels s'))"
    using assms(1) uq unfolding s' schema_ok_def unique_item_id_def
    by (auto simp: item_ids_of_append item_ids_of_Cons item_ids_of_def split: option.splits)
  with assms(1) q pk fk show ?thesis
    unfolding s' schema_ok_def
    by (simp add: pk_items_def unique_item_code_def pk_stock_levels_def unique_item_id_def
        decimals_in_range_def pk_sync_logs_def check_status_def fk_item_id_def)
qed

lemma update_stock_level_schema_ok:
  assumes "schema_ok s" and "update_stock_level r s = Inr s'"
  shows "schema_ok s'"
proof (cases "sl_id r \<in> set (map sl_id (stock_levels s))")
  case False
  with assms show ?thesis by (simp add: update_stock_level_def)
next
  case True
  with assms(2) have s': "s' = s\<lparr>stock_levels := map (\<lambda>x. if sl_id x = sl_id r then r else x) (stock_levels s)\<rparr>"
    and q: "quantities_ok r"
    and uq: "\<forall>k. sl_item_id r = Some k \<longrightarrow>
               k \<notin> set (item_ids_of (filter (\<lambda>x. sl_id x \<noteq> sl_id r) (stock_levels s)))"
    and fk: "fk_ok (items s) r"
    by (auto simp: update_stock_level_def split: if_splits option.splits)
  have "distinct (item_ids_of (stock_levels s'))"
    using assms(1) uq unfolding s' schema_ok_def unique_item_id_def pk_stock_levels_def
    by (simp add: item_ids_of_replace)
  then show ?thesis
    using assms(1) q fk unfolding schema_ok_def
    by (auto simp: pk_items_def unique_item_code_def pk_stock_levels_def unique_item_id_def
        decimals_in_range_def pk_sync_logs_def check_status_def fk_item_id_def s'
        map_key_replace_comp)
qed

lemma delete_stock_level_schema_ok:
  assumes "schema_ok s" and "delete_stock_level k s = Inr s'"
  shows "schema_ok s'"
proof -
  from assms(2) have s': "s' = s\<lparr>stock_levels := filter (\<lambda>x. sl_id x \<noteq> k) (stock_levels s)\<rparr>"
    by (simp add: delete_stock_level_def)
  from assms(1) show ?thesis
    unfolding s' schema_ok_def
    by (simp add: pk_items_def unique_item_code_def pk_stock_levels_def unique_item_id_def
        decimals_in_range_def pk_sync_logs_def check_status_def fk_item_id_def distinct_map_filter
        item_ids_of_filter)
qed

lemma insert_sync_log_schema_ok:
  assumes "schema_ok s" and "insert_sync_log r s = Inr s'"
  shows "schema_ok s'"
proof -
  from assms(2) have s': "s' = s\<lparr>sync_logs := sync_logs s @ [r]\<rparr>"
    and "status_check (status r)" "log_id r \<notin> set (map log_id (sync_logs s))"
    by (auto simp: insert_sync_log_def split: if_splits)
  with assms(1) show ?thesis
    unfolding s' schema_ok_def
    by (simp add: pk_items_def unique_item_code_def pk_stock_levels_def unique_item_id_def
        decimals_in_range_def pk_sync_logs_def check_status_def fk_item_id_def)
qed

lemma update_sync_log_schema_ok:
  assumes "schema_ok s" and "update_sync_log r s = Inr s'"
  shows "schema_ok s'"
proof (cases "log_id r \<in> set (map log_id (sync_logs s))")
  case False
  with assms show ?thesis by (auto simp: update_sync_log_def split: if_splits)
next
  case True
  with assms(2) have s': "s' = s\<lparr>sync_logs := map (\<lambda>x. if log_id x = log_id r then r else x) (sync_logs s)\<rparr>"
    and chk: "status_check (status r)"
    by (auto simp: update_sync_log_def split: if_splits)
  from assms(1) chk show ?thesis
    unfolding schema_ok_def
    by (auto simp: pk_items_def unique_item_code_def pk_stock_levels_def unique_item_id_def
        decimals_in_range_def pk_sync_logs_def check_status_def fk_item_id_def s'
        map_key_replace_comp)
qed

lemma delete_sync_log_schema_ok:
  assumes "schema_ok s" and "delete_sync_log k s = Inr s'"
  shows "schema_ok s'"
proof -
  from assms(2) have s': "s' = s\<lparr>sync_logs := filter (\<lambda>x. log_id x \<noteq> k) (sync_logs s)\<rparr>"
    by (simp add: delete_sync_log_def)
  from assms(1) show ?thesis
    unfolding s' schema_ok_def
    by (simp add: pk_items_def unique_item_code_def pk_stock_levels_def unique_item_id_def
        decimals_in_range_def pk_sync_logs_def check_status_def fk_item_id_def distinct_map_filter)
qed

lemma exec_schema_ok:
  assumes "schema_ok s" and "exec now st s = Inr s'"
  shows "schema_ok s'"
  using assms
  by (cases st)
     (auto intro: insert_item_schema_ok update_item_schema_ok delete_item_schema_ok
        insert_stock_level_schema_ok update_stock_level_schema_ok delete_stock_level_schema_ok
        insert_sync_log_schema_ok update_sync_log_schema_ok delete_sync_log_schema_ok)

lemma attempt_schema_ok: "schema_ok s \<Longrightarrow> schema_ok (attempt ts s)"
  by (auto simp: attempt_def split: sum.splits intro: exec_schema_ok)

lemma session_schema_ok: "schema_ok s \<Longrightarrow> schema_ok (session stmts s)"
  unfolding session_def
  by (induction stmts arbitrary: s) (simp_all add: attempt_schema_ok)

lemma empty_store_schema_ok: "schema_ok empty_store"
  by (simp add: schema_ok_def empty_store_def pk_items_def unique_item_code_def
      pk_stock_levels_def unique_item_id_def decimals_in_range_def pk_sync_logs_def
      check_status_def fk_item_id_def item_ids_of_def)

section \<open>The publisher's writes\<close>

lemma fresh_uuid_bound: "k \<in> set ks \<Longrightarrow> k < fresh_uuid ks"
proof -
  have "\<And>m. k \<in> set ks \<Longrightarrow> k \<le> fold max ks m"
  proof (induction ks)
    case Nil
    then show ?case by simp
  next
    case (Cons a ks)
    have mono: "\<And>m. m \<le> fold max ks m"
    proof (induction ks)
      case Nil
      show ?case by simp
    next
      case (Cons b ks)
      have "m \<le> max b m" by simp
      also have "\<dots> \<le> fold max ks (max b m)" by (rule Cons.IH)
      finally show ?case by simp
    qed
    show ?case
    proof (cases "k = a")
      case True
      have "a \<le> max a m" by simp
      also have "\<dots> \<le> fold max ks (max a m)" by (rule mono)
      finally show ?thesis using True by simp
    next
      case False
      with Cons.prems have "k \<in> set ks" by simp
      then show ?thesis using Cons.IH by simp
    qed
  qed
  then show "k \<in> set ks \<Longrightarrow> k < fresh_uuid ks"
    unfolding fresh_uuid_def by (simp add: less_Suc_eq_le)
qed

lemma fresh_uuid_new: "fresh_uuid ks \<notin> set ks"
  using fresh_uuid_bound by blast

lemma find_unique:
  assumes "distinct (map f xs)" and "x \<in> set xs" and "f x = c"
  shows "find (\<lambda>y. f y = c) xs = Some x"
  using assms
proof (induction xs)
  case Nil
  then show ?case by simp
next
  case (Cons a xs)
  show ?case
  proof (cases "f a = c")
    case True
    with Cons.prems have "a = x" by (auto simp: image_iff)
    with True show ?thesis by simp
  next
    case False
    with Cons.prems have "x \<in> set xs" by auto
    with Cons False show ?thesis by simp
  qed
qed

lemma find_item_id_unique:
  assumes "distinct (item_ids_of sls)" and "y \<in> set sls" and "sl_item_id y = Some k"
  shows "find (\<lambda>z. sl_item_id z = Some k) sls = Some y"
  using assms
proof (induction sls)
  case Nil
  then show ?case by simp
next
  case (Cons a sls)
  show ?case
  proof (cases "sl_item_id a = Some k")
    case True
    with Cons.prems have "a = y" by (auto simp: item_ids_of_Cons in_item_ids_of)
    with True show ?thesis by simp
  next
    case False
    with Cons.prems have "y \<in> set sls" by auto
    moreover from Cons.prems have "distinct (item_ids_of sls)"
      by (auto simp: item_ids_of_Cons split: option.splits)
    ultimately show ?thesis using Cons.IH Cons.prems(3) False by simp
  qed
qed

lemma find_Some_set: "find P xs = Some x \<Longrightarrow> x \<in> set xs \<and> P x"
  by (auto simp: find_Some_iff)

lemma find_None_set: "find P xs = None \<Longrightarrow> \<forall>x \<in> set xs. \<not> P x"
  by (simp add: find_None_iff)

text \<open>
  What a successful upsert of an item leaves: a store within the schema, with the same
  stock levels and logs, the same ids and more, the item under the returned id with the
  attributes it was given, and every item with another code as it was.
\<close>

lemma upsert_item_effect_changed:
  assumes ok: "schema_ok s" and up: "upsert_item now c a s = Inr (s', k)"
    and changed: "\<And>x. find (\<lambda>x. i_item_code x = c) (items s) = Some x \<Longrightarrow>
           \<not> (i_item_name x = a_item_name a \<and> i_category x = Some (a_category a) \<and>
              i_unit x = Some (a_unit a))"
  shows "schema_ok s'"
    and "stock_levels s' = stock_levels s"
    and "sync_logs s' = sync_logs s"
    and "\<exists>x \<in> set (items s'). i_id x = k \<and> i_item_code x = c \<and>
            i_item_name x = a_item_name a \<and> i_category x = Some (a_category a) \<and>
            i_unit x = Some (a_unit a)"
    and "set (map i_id (items s)) \<subseteq> set (map i_id (items s'))"
    and "\<And>x. i_item_code x \<noteq> c \<Longrightarrow> x \<in> set (items s') \<longleftrightarrow> x \<in> set (items s)"
proof -
  show "schema_ok s'"
  proof (cases "find (\<lambda>x. i_item_code x = c) (items s)")
    case None
    with up show ?thesis
      by (auto simp: upsert_item_def Let_def split: sum.splits intro: insert_item_schema_ok [OF ok])
  next
    case (Some x)
    with up changed [OF Some] show ?thesis
      by (auto simp: upsert_item_def split: sum.splits if_splits intro: update_item_schema_ok [OF ok])
  qed
  show "stock_levels s' = stock_levels s" "sync_logs s' = sync_logs s"
    using up
    by (auto simp: upsert_item_def Let_def insert_item_def update_item_def
        split: option.splits sum.splits if_splits)
  show "\<exists>x \<in> set (items s'). i_id x = k \<and> i_item_code x = c \<and>
            i_item_name x = a_item_name a \<and> i_category x = Some (a_category a) \<and>
            i_unit x = Some (a_unit a)"
  proof (cases "find (\<lambda>x. i_item_code x = c) (items s)")
    case None
    with up show ?thesis
      by (auto simp: upsert_item_def Let_def insert_item_def split: sum.splits if_splits)
  next
    case (Some x)
    then have x: "x \<in> set (items s)" "i_item_code x = c" by (auto dest: find_Some_set)
    let ?r = "x\<lparr>i_item_name := a_item_name a, i_category := Some (a_category a),
                 i_unit := Some (a_unit a)\<rparr>"
    from up Some changed [OF Some] have s': "items s' = map (\<lambda>y. if i_id y = i_id ?r then update_updated_at_column now ?r else y) (items s)"
      and k: "k = i_id x"
      by (auto simp: upsert_item_def update_item_def split: sum.splits if_splits)
    have "update_updated_at_column now ?r \<in> set (items s')"
      unfolding s' using x(1) by (auto simp: image_iff intro!: bexI [where x = x])
    then show ?thesis
      using x(2) k by (intro bexI [where x = "update_updated_at_column now ?r"])
        (simp_all add: update_updated_at_column_def)
  qed
  show "set (map i_id (items s)) \<subseteq> set (map i_id (items s'))"
  proof (cases "find (\<lambda>x. i_item_code x = c) (items s)")
    case None
    with up show ?thesis
      by (auto simp: upsert_item_def Let_def insert_item_def split: sum.splits if_splits)
  next
    case (Some x)
    let ?r = "x\<lparr>i_item_name := a_item_name a, i_category := Some (a_category a),
                 i_unit := Some (a_unit a)\<rparr>"
    from up Some changed [OF Some] have s': "items s' = map (\<lambda>y. if i_id y = i_id ?r then update_updated_at_column now ?r else y) (items s)"
      by (auto simp: upsert_item_def update_item_def split: sum.splits if_splits)
    have "map i_id (items s') = map i_id (items s)"
      unfolding s' by (rule map_key_replace) (simp add: update_updated_at_column_def)
    then show ?thesis by simp
  qed
  show "\<And>x. i_item_code x \<noteq> c \<Longrightarrow> x \<in> set (items s') \<longleftrightarrow> x \<in> set (items s)"
  proof -
    fix z :: item assume z: "i_item_code z \<noteq> c"
    show "z \<in> set (items s') \<longleftrightarrow> z \<in> set (items s)"
    proof (cases "find (\<lambda>x. i_item_code x = c) (items s)")
      case None
      with up z show ?thesis
        by (auto simp: upsert_item_def Let_def insert_item_def split: sum.splits if_splits)
    next
      case (Some x)
      then have x: "x \<in> set (items s)" "i_item_code x = c" by (auto dest: find_Some_set)
      let ?r = "x\<lparr>i_item_name := a_item_name a, i_category := Some (a_category a),
                   i_unit := Some (a_unit a)\<rparr>"
      from up Some changed [OF Some] have s': "items s' = map (\<lambda>y. if i_id y = i_id x then update_updated_at_column now ?r else y) (items s)"
        by (auto simp: upsert_item_def update_item_def split: sum.splits if_splits)
      have only: "\<forall>y \<in> set (items s). i_id y = i_id x \<longrightarrow> y = x"
        using ok x(1) unfolding schema_ok_def pk_items_def by (metis distinct_map inj_onD)
      have rc: "i_item_code (update_updated_at_column now ?r) = c"
        using x(2) by (simp add: update_updated_at_column_def)
      show ?thesis
      proof
        assume "z \<in> set (items s')"
        then obtain y where y: "y \<in> set (items s)"
          and zy: "z = (if i_id y = i_id x then update_updated_at_column now ?r else y)"
          unfolding s' by auto
        with z rc show "z \<in> set (items s)" by (auto split: if_splits)
      next
        assume zin: "z \<in> set (items s)"
        with only z x(2) have "i_id z \<noteq> i_id x" by auto
        with zin show "z \<in> set (items s')" unfolding s' by (auto simp: image_iff intro!: bexI [where x = z])
      qed
    qed
  qed
qed

lemma upsert_item_unchanged:
  assumes "find (\<lambda>x. i_item_code x = c) (items s) = Some x"
    and "i_item_name x = a_item_name a" and "i_category x = Some (a_category a)"
    and "i_unit x = Some (a_unit a)"
  shows "upsert_item now c a s = Inr (s, i_id x)"
  using assms by (simp add: upsert_item_def)

lemma upsert_item_effect:
  assumes ok: "schema_ok s" and up: "upsert_item now c a s = Inr (s', k)"
  shows "schema_ok s'"
    and "stock_levels s' = stock_levels s"
    and "sync_logs s' = sync_logs s"
    and "\<exists>x \<in> set (items s'). i_id x = k \<and> i_item_code x = c \<and>
            i_item_name x = a_item_name a \<and> i_category x = Some (a_category a) \<and>
            i_unit x = Some (a_unit a)"
    and "set (map i_id (items s)) \<subseteq> set (map i_id (items s'))"
    and "\<And>x. i_item_code x \<noteq> c \<Longrightarrow> x \<in> set (items s') \<longleftrightarrow> x \<in> set (items s)"
proof -
  have "schema_ok s' \<and> stock_levels s' = stock_levels s \<and> sync_logs s' = sync_logs s \<and>
        (\<exists>x \<in> set (items s'). i_id x = k \<and> i_item_code x = c \<and>
            i_item_name x = a_item_name a \<and> i_category x = Some (a_category a) \<and>
            i_unit x = Some (a_unit a)) \<and>
        set (map i_id (items s)) \<subseteq> set (map i_id (items s')) \<and>
        (\<forall>x. i_item_code x \<noteq> c \<longrightarrow> x \<in> set (items s') \<longleftrightarrow> x \<in> set (items s))"
  proof (cases "\<exists>x. find (\<lambda>x. i_item_code x = c) (items s) = Some x \<and>
                  i_item_name x = a_item_name a \<and> i_category x = Some (a_category a) \<and>
                  i_unit x = Some (a_unit a)")
    case True
    then obtain x where f: "find (\<lambda>x. i_item_code x = c) (items s) = Some x"
      and same: "i_item_name x = a_item_name a" "i_category x = Some (a_category a)"
        "i_unit x = Some (a_unit a)"
      by blast
    from upsert_item_unchanged [OF f same] up have eq: "s' = s" "k = i_id x" by simp_all
    from f have x: "x \<in> set (items s)" "i_item_code x = c" by (auto dest: find_Some_set)
    from x same have "\<exists>x \<in> set (items s). i_id x = i_id x \<and> i_item_code x = c \<and>
            i_item_name x = a_item_name a \<and> i_category x = Some (a_category a) \<and>
            i_unit x = Some (a_unit a)"
      by blast
    with x same ok show ?thesis unfolding eq by blast
  next
    case False
    then have changed: "\<And>x. find (\<lambda>x. i_item_code x = c) (items s) = Some x \<Longrightarrow>
           \<not> (i_item_name x = a_item_name a \<and> i_category x = Some (a_category a) \<and>
              i_unit x = Some (a_unit a))"
      by blast
    note E = upsert_item_effect_changed [OF ok up changed]
    from E(1,2,3,4,5) E(6) show ?thesis by blast
  qed
  then show "schema_ok s'"
    and "stock_levels s' = stock_levels s"
    and "sync_logs s' = sync_logs s"
    and "\<exists>x \<in> set (items s'). i_id x = k \<and> i_item_code x = c \<and>
            i_item_name x = a_item_name a \<and> i_category x = Some (a_category a) \<and>
            i_unit x = Some (a_unit a)"
    and "set (map i_id (items s)) \<subseteq> set (map i_id (items s'))"
    and "\<And>x. i_item_code x \<noteq> c \<Longrightarrow> x \<in> set (items s') \<longleftrightarrow> x \<in> set (items s)"
    by blast+
qed

text \<open>The same for the upsert of a stock level.\<close>

lemma upsert_stock_level_effect:
  assumes ok: "schema_ok s" and up: "upsert_stock_level ts k l s = Inr s'"
  shows "schema_ok s'"
    and "items s' = items s"
    and "sync_logs s' = sync_logs s"
    and "\<exists>y \<in> set (stock_levels s'). level_written ts k l y"
    and "\<And>y. sl_item_id y \<noteq> Some k \<Longrightarrow> y \<in> set (stock_levels s') \<longleftrightarrow> y \<in> set (stock_levels s)"
proof -
  show "schema_ok s'"
    using up
    by (auto simp: upsert_stock_level_def split: option.splits
        intro: insert_stock_level_schema_ok [OF ok] update_stock_level_schema_ok [OF ok])
  show "items s' = items s" "sync_logs s' = sync_logs s"
    using up
    by (auto simp: upsert_stock_level_def insert_stock_level_def update_stock_level_def
        split: option.splits if_splits)
  show "\<exists>y \<in> set (stock_levels s'). level_written ts k l y"
  proof (cases "find (\<lambda>x. sl_item_id x = Some k) (stock_levels s)")
    case None
    with up show ?thesis
      by (auto simp: upsert_stock_level_def insert_stock_level_def level_written_def
          split: if_splits)
  next
    case (Some x)
    then have x: "x \<in> set (stock_levels s)" "sl_item_id x = Some k" by (auto dest: find_Some_set)
    let ?r = "x\<lparr>sl_current_stock := Some (current_stock l),
                 sl_physical_baseline := Some (physical_baseline l),
                 sl_tally_delta := Some (tally_delta l),
                 sl_last_sync := Some ts, sl_sync_source := Some ''tally_sync''\<rparr>"
    from x(1) have "sl_id ?r \<in> set (map sl_id (stock_levels s))" by (simp add: image_iff) blast
    with up Some have s': "stock_levels s' = map (\<lambda>y. if sl_id y = sl_id x then ?r else y) (stock_levels s)"
      by (auto simp: upsert_stock_level_def update_stock_level_def split: if_splits)
    have "?r \<in> set (stock_levels s')"
      unfolding s' using x(1) by (auto simp: image_iff intro!: bexI [where x = x])
    moreover have "level_written ts k l ?r"
      using x(2) by (simp add: level_written_def)
    ultimately show ?thesis by blast
  qed
  show "\<And>y. sl_item_id y \<noteq> Some k \<Longrightarrow> y \<in> set (stock_levels s') \<longleftrightarrow> y \<in> set (stock_levels s)"
  proof -
    fix z :: stock_level assume z: "sl_item_id z \<noteq> Some k"
    show "z \<in> set (stock_levels s') \<longleftrightarrow> z \<in> set (stock_levels s)"
    proof (cases "find (\<lambda>x. sl_item_id x = Some k) (stock_levels s)")
      case None
      with up z show ?thesis
        by (auto simp: upsert_stock_level_def insert_stock_level_def split: if_splits)
    next
      case (Some x)
      then have x: "x \<in> set (stock_levels s)" "sl_item_id x = Some k" by (auto dest: find_Some_set)
      let ?r = "x\<lparr>sl_current_stock := Some (current_stock l),
                   sl_physical_baseline := Some (physical_baseline l),
                   sl_tally_delta := Some (tally_delta l),
                   sl_last_sync := Some ts, sl_sync_source := Some ''tally_sync''\<rparr>"
      from x(1) have "sl_id ?r \<in> set (map sl_id (stock_levels s))" by (simp add: image_iff) blast
      with up Some have s': "stock_levels s' = map (\<lambda>y. if sl_id y = sl_id x then ?r else y) (stock_levels s)"
        by (auto simp: upsert_stock_level_def update_stock_level_def split: if_splits)
      have only: "\<forall>y \<in> set (stock_levels s). sl_id y = sl_id x \<longrightarrow> y = x"
        using ok x(1) unfolding schema_ok_def pk_stock_levels_def by (metis distinct_map inj_onD)
      have rk: "sl_item_id ?r = Some k" using x(2) by simp
      show ?thesis
      proof
        assume "z \<in> set (stock_levels s')"
        then obtain y where y: "y \<in> set (stock_levels s)"
          and zy: "z = (if sl_id y = sl_id x then ?r else y)"
          unfolding s' by auto
        with z rk show "z \<in> set (stock_levels s)" by (auto split: if_splits)
      next
        assume zin: "z \<in> set (stock_levels s)"
        with only z x(2) have "sl_id z \<noteq> sl_id x" by auto
        with zin show "z \<in> set (stock_levels s')"
          unfolding s' by (auto simp: image_iff intro!: bexI [where x = z])
      qed
    qed
  qed
qed

text \<open>Publishing one item: the item and its stock level are there afterwards.\<close>

lemma publish_one_schema_ok:
  assumes "schema_ok s" and "publish_one now meta row s = Inr s'"
  shows "schema_ok s'"
  using assms
  by (auto simp: publish_one_def split: sum.splits prod.splits
      dest: upsert_item_effect(1) upsert_stock_level_effect(1))

lemma publish_one_sync_logs:
  assumes "schema_ok s" and "publish_one now meta row s = Inr s'"
  shows "sync_logs s' = sync_logs s"
proof -
  from assms(2) obtain s1 k where a: "upsert_item now (p_item_code row) (p_attrs row) s = Inr (s1, k)"
    and b: "upsert_stock_level (run_timestamp meta) k (p_level row) s1 = Inr s'"
    by (auto simp: publish_one_def split: sum.splits prod.splits)
  from upsert_item_effect(1,3) [OF assms(1) a] upsert_stock_level_effect(3) [OF _ b]
  show ?thesis by simp
qed

lemma publish_one_published:
  assumes "schema_ok s" and "publish_one now meta row s = Inr s'"
  shows "published meta row s'"
proof -
  from assms(2) obtain s1 k where a: "upsert_item now (p_item_code row) (p_attrs row) s = Inr (s1, k)"
    and b: "upsert_stock_level (run_timestamp meta) k (p_level row) s1 = Inr s'"
    by (auto simp: publish_one_def split: sum.splits prod.splits)
  note A = upsert_item_effect [OF assms(1) a]
  note B = upsert_stock_level_effect [OF A(1) b]
  from A(4) obtain x where x: "x \<in> set (items s1)" "i_id x = k"
    "item_has_attrs (p_item_code row) (p_attrs row) x"
    by (auto simp: item_has_attrs_def)
  with B(2,4) show ?thesis unfolding published_def by auto
qed

lemma publish_one_keeps_published:
  assumes ok: "schema_ok s" and pub: "publish_one now meta row s = Inr s'"
    and other: "p_item_code row' \<noteq> p_item_code row"
    and old: "published meta' row' s"
  shows "published meta' row' s'"
proof -
  from pub obtain s1 k where a: "upsert_item now (p_item_code row) (p_attrs row) s = Inr (s1, k)"
    and b: "upsert_stock_level (run_timestamp meta) k (p_level row) s1 = Inr s'"
    by (auto simp: publish_one_def split: sum.splits prod.splits)
  note A = upsert_item_effect [OF ok a]
  note B = upsert_stock_level_effect [OF A(1) b]
  from old obtain x y where x: "x \<in> set (items s)" "item_has_attrs (p_item_code row') (p_attrs row') x"
    and y: "y \<in> set (stock_levels s)" "level_written (run_timestamp meta') (i_id x) (p_level row') y"
    unfolding published_def by blast
  from x(2) other have xc: "i_item_code x \<noteq> p_item_code row" by (simp add: item_has_attrs_def)
  with x(1) A(6) have x1: "x \<in> set (items s1)" by simp
  from A(4) obtain x' where x': "x' \<in> set (items s1)" "i_id x' = k" "i_item_code x' = p_item_code row"
    by blast
  have "i_id x \<noteq> k"
  proof
    assume "i_id x = k"
    with x1 x'(1,2) A(1) have "x = x'"
      unfolding schema_ok_def pk_items_def by (metis distinct_map inj_onD)
    with xc x'(3) show False by simp
  qed
  with y(2) have "sl_item_id y \<noteq> Some k" by (simp add: level_written_def)
  with y(1) A(2) B(5) have "y \<in> set (stock_levels s')" by simp
  with x1 B(2) x(2) y(2) show ?thesis unfolding published_def by auto
qed

text \<open>The loop: once a write is rejected nothing more is written.\<close>

lemma publish_steps_after_error:
  "fold (publish_step now meta) rows (s, n, Some e) = (s, n, Some e)"
  by (induction rows) (simp_all add: publish_step_def)

lemma publish_step_simps:
  "publish_step now meta row (s, n, Some e) = (s, n, Some e)"
  "publish_one now meta row s = Inl e \<Longrightarrow> publish_step now meta row (s, n, None) = (s, n, Some e)"
  "publish_one now meta row s = Inr s1 \<Longrightarrow> publish_step now meta row (s, n, None) = (s1, Suc n, None)"
  by (simp_all add: publish_step_def)

lemma publish_steps_Cons:
  assumes "fold (publish_step now meta) (row # rows) (s, n, None) = (s', n', None)"
  obtains s1 where "publish_one now meta row s = Inr s1"
    and "fold (publish_step now meta) rows (s1, Suc n, None) = (s', n', None)"
proof (cases "publish_one now meta row s")
  case (Inl e)
  with assms show ?thesis by (simp add: publish_step_def publish_steps_after_error)
next
  case (Inr s1)
  with assms that show ?thesis by (simp add: publish_step_def)
qed

lemma publish_steps_schema_ok:
  assumes "schema_ok s" and "fold (publish_step now meta) rows (s, n, None) = (s', n', None)"
  shows "schema_ok s' \<and> n' = n + length rows \<and> sync_logs s' = sync_logs s"
  using assms
proof (induction rows arbitrary: s n)
  case Nil
  then show ?case by simp
next
  case (Cons row rows)
  from Cons.prems(2) obtain s1 where one: "publish_one now meta row s = Inr s1"
    and rest: "fold (publish_step now meta) rows (s1, Suc n, None) = (s', n', None)"
    by (rule publish_steps_Cons)
  have ok1: "schema_ok s1" using Cons.prems(1) one by (rule publish_one_schema_ok)
  have "sync_logs s1 = sync_logs s" using Cons.prems(1) one by (rule publish_one_sync_logs)
  with Cons.IH [OF ok1 rest] show ?case by simp
qed

lemma publish_steps_keep_published:
  assumes "schema_ok s" and "fold (publish_step now meta) rows (s, n, None) = (s', n', None)"
    and "\<forall>row \<in> set rows. p_item_code row \<noteq> p_item_code row0"
    and "published meta0 row0 s"
  shows "published meta0 row0 s'"
  using assms
proof (induction rows arbitrary: s n)
  case Nil
  then show ?case by simp
next
  case (Cons row rows)
  from Cons.prems(2) obtain s1 where one: "publish_one now meta row s = Inr s1"
    and rest: "fold (publish_step now meta) rows (s1, Suc n, None) = (s', n', None)"
    by (rule publish_steps_Cons)
  have ok1: "schema_ok s1" using Cons.prems(1) one by (rule publish_one_schema_ok)
  have "p_item_code row0 \<noteq> p_item_code row" using Cons.prems(3) by auto
  then have "published meta0 row0 s1"
    using Cons.prems(4) by (rule publish_one_keeps_published [OF Cons.prems(1) one])
  with Cons.IH [OF ok1 rest] Cons.prems(3) show ?case by simp
qed

lemma publish_steps_published:
  assumes "schema_ok s" and "fold (publish_step now meta) rows (s, n, None) = (s', n', None)"
    and "distinct (map p_item_code rows)"
  shows "\<forall>row \<in> set rows. published meta row s'"
  using assms
proof (induction rows arbitrary: s n)
  case Nil
  then show ?case by simp
next
  case (Cons row rows)
  from Cons.prems(2) obtain s1 where one: "publish_one now meta row s = Inr s1"
    and rest: "fold (publish_step now meta) rows (s1, Suc n, None) = (s', n', None)"
    by (rule publish_steps_Cons)
  have ok1: "schema_ok s1" using Cons.prems(1) one by (rule publish_one_schema_ok)
  have here: "published meta row s1" using Cons.prems(1) one by (rule publish_one_published)
  from Cons.prems(3) have others: "\<forall>r \<in> set rows. p_item_code r \<noteq> p_item_code row"
    by (auto simp: image_iff)
  have "published meta row s'"
    using ok1 rest others here by (rule publish_steps_keep_published)
  moreover from Cons.prems(3) have "distinct (map p_item_code rows)" by simp
  from Cons.IH [OF ok1 rest this] have "\<forall>r \<in> set rows. published meta r s'" .
  ultimately show ?case by simp
qed

lemma publish_items_success:
  assumes "schema_ok s" and "publish_items now meta rows s = (s', n, None)"
    and "distinct (map p_item_code rows)"
  shows "schema_ok s'" and "n = length rows" and "sync_logs s' = sync_logs s"
    and "\<forall>row \<in> set rows. published meta row s'"
proof -
  from assms(2) have f: "fold (publish_step now meta) rows (s, 0, None) = (s', n, None)"
    by (simp add: publish_items_def)
  from publish_steps_schema_ok [OF assms(1) f]
  show "schema_ok s'" "n = length rows" "sync_logs s' = sync_logs s" by simp_all
  from publish_steps_published [OF assms(1) f assms(3)]
  show "\<forall>row \<in> set rows. published meta row s'" .
qed

lemma only_stock_level:
  assumes "distinct (item_ids_of sls)" and "y \<in> set sls" and "sl_item_id y = Some k"
  shows "filter (\<lambda>z. sl_item_id z = Some k) sls = [y]"
  using assms
proof (induction sls)
  case Nil
  then show ?case by simp
next
  case (Cons a sls)
  from Cons.prems(1) have d: "distinct (item_ids_of sls)"
    by (auto simp: item_ids_of_Cons split: option.splits)
  show ?case
  proof (cases "sl_item_id a = Some k")
    case True
    with Cons.prems(1) have none: "\<forall>z \<in> set sls. sl_item_id z \<noteq> Some k"
      by (auto simp: item_ids_of_Cons in_item_ids_of)
    with Cons.prems(2,3) have "a = y" by auto
    moreover from none have "filter (\<lambda>z. sl_item_id z = Some k) sls = []"
      by (simp add: filter_empty_conv)
    ultimately show ?thesis using True by simp
  next
    case False
    with Cons.prems have "y \<in> set sls" by auto
    with Cons.IH d Cons.prems(3) False show ?thesis by simp
  qed
qed

lemma at_most_one_stock_level:
  assumes "distinct (item_ids_of sls)"
  shows "length (filter (\<lambda>z. sl_item_id z = Some k) sls) \<le> 1"
proof (cases "\<exists>y \<in> set sls. sl_item_id y = Some k")
  case True
  then obtain y where "y \<in> set sls" "sl_item_id y = Some k" by blast
  with assms have "filter (\<lambda>z. sl_item_id z = Some k) sls = [y]" by (rule only_stock_level)
  then show ?thesis by simp
next
  case False
  then have "filter (\<lambda>z. sl_item_id z = Some k) sls = []" by (simp add: filter_empty_conv)
  then show ?thesis by simp
qed

section \<open>The aggregator sums\<close>

lemma delta_of_add_delta:
  "delta_of (add_delta c q ds) c' = delta_of ds c' + (if c' = c then q else 0)"
  by (simp add: delta_of_def add_delta_def update_conv' coalesce_def)

lemma keys_add_delta: "set (map fst (add_delta c q ds)) = insert c (set (map fst ds))"
  by (simp add: add_delta_def update_keys image_iff) (auto simp: image_iff)

lemma distinct_add_delta: "distinct (map fst ds) \<Longrightarrow> distinct (map fst (add_delta c q ds))"
  by (simp add: add_delta_def distinct_update)

lemma add_stock_item_simps:
  "delta_of (agg_deltas (add_stock_item r agg)) c = delta_of (agg_deltas agg) c"
  "set (map fst (agg_deltas (add_stock_item r agg))) = insert (si_item_code r) (set (map fst (agg_deltas agg)))"
  "agg_failures (add_stock_item r agg) = agg_failures agg"
  "distinct (map fst (agg_deltas agg)) \<Longrightarrow> distinct (map fst (agg_deltas (add_stock_item r agg)))"
  by (simp_all add: add_stock_item_def delta_of_add_delta keys_add_delta distinct_add_delta
      del: set_map)

lemma add_movement_simps:
  "delta_of (agg_deltas (add_movement r agg)) c =
     delta_of (agg_deltas agg) c + (if c = mv_item_code r then mv_quantity_delta r else 0)"
  "set (map fst (agg_deltas (add_movement r agg))) = insert (mv_item_code r) (set (map fst (agg_deltas agg)))"
  "agg_failures (add_movement r agg) = agg_failures agg"
  "distinct (map fst (agg_deltas agg)) \<Longrightarrow> distinct (map fst (agg_deltas (add_movement r agg)))"
  by (simp_all add: add_movement_def delta_of_add_delta keys_add_delta distinct_add_delta
      del: set_map)

lemma fold_add_stock_item:
  "delta_of (agg_deltas (fold add_stock_item its agg)) c = delta_of (agg_deltas agg) c"
  "set (map fst (agg_deltas (fold add_stock_item its agg))) =
     set (map si_item_code its) \<union> set (map fst (agg_deltas agg))"
  "agg_failures (fold add_stock_item its agg) = agg_failures agg"
  "distinct (map fst (agg_deltas agg)) \<Longrightarrow>
     distinct (map fst (agg_deltas (fold add_stock_item its agg)))"
proof (induction its arbitrary: agg)
  case Nil
  {
    case 1 show ?case by simp
  next
    case 2 show ?case by simp
  next
    case 3 show ?case by simp
  next
    case 4 then show ?case by simp
  }
next
  case (Cons r its)
  {
    case 1 show ?case
      by (simp add: Cons.IH(1) add_stock_item_simps(1))
  next
    case 2 show ?case
      by (auto simp: Cons.IH(2) add_stock_item_simps(2) simp del: set_map)
  next
    case 3 show ?case
      by (simp add: Cons.IH(3) add_stock_item_simps(3))
  next
    case 4 then show ?case
      by (simp add: Cons.IH(4) add_stock_item_simps(4))
  }
qed

lemma fold_add_movement:
  "delta_of (agg_deltas (fold add_movement mvs agg)) c = delta_of (agg_deltas agg) c + item_delta c mvs"
  "set (map fst (agg_deltas (fold add_movement mvs agg))) =
     set (map mv_item_code mvs) \<union> set (map fst (agg_deltas agg))"
  "agg_failures (fold add_movement mvs agg) = agg_failures agg"
  "distinct (map fst (agg_deltas agg)) \<Longrightarrow>
     distinct (map fst (agg_deltas (fold add_movement mvs agg)))"
proof (induction mvs arbitrary: agg)
  case Nil
  {
    case 1 show ?case by (simp add: item_delta_def)
  next
    case 2 show ?case by simp
  next
    case 3 show ?case by simp
  next
    case 4 then show ?case by simp
  }
next
  case (Cons r mvs)
  {
    case 1 show ?case
      by (simp add: Cons.IH(1) add_movement_simps(1) item_delta_def)
  next
    case 2 show ?case
      by (auto simp: Cons.IH(2) add_movement_simps(2) simp del: set_map)
  next
    case 3 show ?case
      by (simp add: Cons.IH(3) add_movement_simps(3))
  next
    case 4 then show ?case
      by (simp add: Cons.IH(4) add_movement_simps(4))
  }
qed

lemma aggregate_connector_delta:
  "delta_of (agg_deltas (aggregate_connector since k agg)) c =
     delta_of (agg_deltas agg) c + (if succeeded since k then item_delta c (movements_of since k) else 0)"
  by (simp add: aggregate_connector_def succeeded_def movements_of_def fold_add_movement(1)
      fold_add_stock_item(1) split: sum.splits prod.splits)

lemma aggregate_connector_keys:
  "set (map fst (agg_deltas (aggregate_connector since k agg))) =
     set (codes_of since k) \<union> set (map fst (agg_deltas agg))"
  by (auto simp: aggregate_connector_def codes_of_def fold_add_movement(2)
      fold_add_stock_item(2) simp del: set_map split: sum.splits prod.splits)

lemma aggregate_connector_distinct:
  "distinct (map fst (agg_deltas agg)) \<Longrightarrow>
     distinct (map fst (agg_deltas (aggregate_connector since k agg)))"
  by (simp add: aggregate_connector_def fold_add_movement(4) fold_add_stock_item(4)
      split: sum.splits prod.splits)

lemma aggregate_connector_failures:
  "agg_failures (aggregate_connector since k agg) =
     agg_failures agg @ (if succeeded since k then []
                         else [(company_name k, case query_connector since k of Inl e \<Rightarrow> e | Inr r \<Rightarrow> Unreachable)])"
  by (simp add: aggregate_connector_def succeeded_def fold_add_movement(3)
      fold_add_stock_item(3) split: sum.splits prod.splits)

lemma fold_aggregate_connector:
  "delta_of (agg_deltas (fold (aggregate_connector since) ks agg)) c =
     delta_of (agg_deltas agg) c +
     (\<Sum>k\<leftarrow>filter (succeeded since) ks. item_delta c (movements_of since k))"
  "set (map fst (agg_deltas (fold (aggregate_connector since) ks agg))) =
     (\<Union>k \<in> set ks. set (codes_of since k)) \<union> set (map fst (agg_deltas agg))"
  "distinct (map fst (agg_deltas agg)) \<Longrightarrow>
     distinct (map fst (agg_deltas (fold (aggregate_connector since) ks agg)))"
  "length (agg_failures (fold (aggregate_connector since) ks agg)) =
     length (agg_failures agg) + length (filter (\<lambda>k. \<not> succeeded since k) ks)"
proof (induction ks arbitrary: agg)
  case Nil
  {
    case 1 show ?case by simp
  next
    case 2 show ?case by simp
  next
    case 3 then show ?case by simp
  next
    case 4 show ?case by simp
  }
next
  case (Cons k ks)
  {
    case 1 show ?case
      by (simp add: Cons.IH(1) aggregate_connector_delta)
  next
    case 2 show ?case
      by (auto simp: Cons.IH(2) aggregate_connector_keys simp del: set_map)
  next
    case 3 then show ?case
      by (simp add: Cons.IH(3) aggregate_connector_distinct)
  next
    case 4 show ?case
      by (simp add: Cons.IH(4) aggregate_connector_failures)
  }
qed

section \<open>Publishing again\<close>

lemma only_row:
  assumes "distinct (map f xs)" and "x \<in> set xs" and "f x = c"
  shows "filter (\<lambda>z. f z = c) xs = [x]"
  using assms
proof (induction xs)
  case Nil
  then show ?case by simp
next
  case (Cons a xs)
  show ?case
  proof (cases "f a = c")
    case True
    with Cons.prems(1) have none: "\<forall>z \<in> set xs. f z \<noteq> c" by (auto simp: image_iff)
    with Cons.prems(2,3) have "a = x" by auto
    moreover from none have "filter (\<lambda>z. f z = c) xs = []" by (simp add: filter_empty_conv)
    ultimately show ?thesis using True by simp
  next
    case False
    with Cons.prems have "x \<in> set xs" by auto
    with Cons False show ?thesis by simp
  qed
qed

lemma same_key_same_row:
  assumes "distinct (map f xs)" and "x \<in> set xs" and "z \<in> set xs" and "f z = f x"
  shows "z = x"
  using assms by (metis distinct_map inj_onD)

lemma published_cong:
  assumes "items s' = items s" and "stock_levels s' = stock_levels s"
  shows "published meta row s' = published meta row s"
  by (simp add: published_def assms)

lemma upsert_item_again:
  assumes ok: "schema_ok s" and x: "x \<in> set (items s)" and a: "item_has_attrs c a x"
  shows "upsert_item now c a s = Inr (s, i_id x)"
proof -
  from ok have dc: "distinct (map i_item_code (items s))"
    by (simp add: schema_ok_def unique_item_code_def)
  from a have c: "i_item_code x = c" by (simp add: item_has_attrs_def)
  have found: "find (\<lambda>z. i_item_code z = c) (items s) = Some x"
    using dc x c by (rule find_unique)
  from a show ?thesis
    by (intro upsert_item_unchanged [OF found]) (simp_all add: item_has_attrs_def)
qed

lemma upsert_stock_level_again:
  assumes ok: "schema_ok s" and y: "y \<in> set (stock_levels s)" and w: "level_written ts k l y"
  shows "upsert_stock_level ts k l s = Inr s"
proof -
  from ok have dk: "distinct (item_ids_of (stock_levels s))"
    and di: "distinct (map sl_id (stock_levels s))"
    and fk: "fk_ok (items s) y" and q: "quantities_ok y"
    using y by (simp_all add: schema_ok_def unique_item_id_def pk_stock_levels_def
        fk_item_id_def decimals_in_range_def)
  from w have k: "sl_item_id y = Some k" by (simp add: level_written_def)
  have found: "find (\<lambda>z. sl_item_id z = Some k) (stock_levels s) = Some y"
    using dk y k by (rule find_item_id_unique)
  have same: "y\<lparr>sl_current_stock := Some (current_stock l),
               sl_physical_baseline := Some (physical_baseline l),
               sl_tally_delta := Some (tally_delta l),
               sl_last_sync := Some ts, sl_sync_source := Some ''tally_sync''\<rparr> = y"
    using w by (cases y) (simp add: level_written_def)
  have no_clash: "k \<notin> set (item_ids_of (filter (\<lambda>z. sl_id z \<noteq> sl_id y) (stock_levels s)))"
  proof
    assume "k \<in> set (item_ids_of (filter (\<lambda>z. sl_id z \<noteq> sl_id y) (stock_levels s)))"
    then obtain z where z: "z \<in> set (stock_levels s)" "sl_id z \<noteq> sl_id y" "sl_item_id z = Some k"
      by (auto simp: in_item_ids_of)
    from z(1,3) have "z \<in> set (filter (\<lambda>z. sl_item_id z = Some k) (stock_levels s))"
      by simp
    then have "z \<in> set [y]"
      unfolding only_stock_level [OF dk y k] .
    with z(2) show False by simp
  qed
  have rows: "map (\<lambda>z. if sl_id z = sl_id y then y else z) (stock_levels s) = stock_levels s"
  proof (rule map_idI)
    fix z assume "z \<in> set (stock_levels s)"
    from same_key_same_row [OF di y this]
    show "(if sl_id z = sl_id y then y else z) = z" by auto
  qed
  have "update_stock_level y s = Inr s"
    using y q k no_clash fk by (simp add: update_stock_level_def rows image_iff)
  then show ?thesis
    by (simp add: upsert_stock_level_def found same)
qed

lemma publish_one_again:
  assumes ok: "schema_ok s" and pub: "published meta row s"
  shows "publish_one now meta row s = Inr s"
proof -
  from pub obtain x y where x: "x \<in> set (items s)" "item_has_attrs (p_item_code row) (p_attrs row) x"
    and y: "y \<in> set (stock_levels s)" "level_written (run_timestamp meta) (i_id x) (p_level row) y"
    unfolding published_def by blast
  have up: "upsert_item now (p_item_code row) (p_attrs row) s = Inr (s, i_id x)"
    using ok x by (rule upsert_item_again)
  have "upsert_stock_level (run_timestamp meta) (i_id x) (p_level row) s = Inr s"
    using ok y by (rule upsert_stock_level_again)
  with up show ?thesis by (simp add: publish_one_def)
qed

lemma publish_steps_again:
  assumes "schema_ok s" and "\<forall>row \<in> set rows. published meta row s"
  shows "fold (publish_step now meta) rows (s, n, None) = (s, n + length rows, None)"
  using assms
proof (induction rows arbitrary: n)
  case Nil
  then show ?case by simp
next
  case (Cons row rows)
  have one: "publish_one now meta row s = Inr s"
    using Cons.prems by (intro publish_one_again) simp_all
  have "fold (publish_step now meta) (row # rows) (s, n, None) =
        fold (publish_step now meta) rows (s, Suc n, None)"
    using one by (simp add: publish_step_def)
  also have "\<dots> = (s, Suc n + length rows, None)"
    using Cons.prems by (intro Cons.IH) simp_all
  finally show ?case by simp
qed

lemma upsert_item_total:
  assumes ok: "schema_ok s"
  obtains s' k where "upsert_item now c a s = Inr (s', k)"
proof (cases "find (\<lambda>x. i_item_code x = c) (items s)")
  case None
  then have "c \<notin> set (map i_item_code (items s))" by (auto simp: find_None_iff)
  then have "\<exists>s' k. upsert_item now c a s = Inr (s', k)"
    using None fresh_uuid_new [of "map i_id (items s)"]
    by (simp add: upsert_item_def Let_def insert_item_def)
  then show ?thesis using that by blast
next
  case (Some x)
  then have x: "x \<in> set (items s)" "i_item_code x = c" by (auto dest: find_Some_set)
  from ok have dc: "distinct (map i_item_code (items s))"
    by (simp add: schema_ok_def unique_item_code_def)
  have no_clash: "c \<notin> set (map i_item_code (filter (\<lambda>z. i_id z \<noteq> i_id x) (items s)))"
  proof
    assume "c \<in> set (map i_item_code (filter (\<lambda>z. i_id z \<noteq> i_id x) (items s)))"
    then obtain z where z: "z \<in> set (items s)" "i_id z \<noteq> i_id x" "i_item_code z = i_item_code x"
      using x(2) by auto
    from same_key_same_row [OF dc x(1) z(1) z(3)] z(2) show False by simp
  qed
  then have "\<exists>s' k. upsert_item now c a s = Inr (s', k)"
    using Some x(2) by (simp add: upsert_item_def update_item_def)
  then show ?thesis using that by blast
qed

text \<open>
  Under the schema's constraints the publisher's write of one item is rejected only for
  a quantity out of the range of \<open>DECIMAL(15,3)\<close>, whatever the time of the write.
\<close>

lemma upsert_stock_level_rejected:
  assumes ok: "schema_ok s" and k: "k \<in> set (map i_id (items s))"
  shows "(\<exists>e. upsert_stock_level ts k l s = Inl e) \<longleftrightarrow>
         \<not> (decimal_15_3 (Some (current_stock l)) \<and> decimal_15_3 (Some (physical_baseline l)) \<and>
            decimal_15_3 (Some (tally_delta l)))"
    and "upsert_stock_level ts k l s = Inl e \<Longrightarrow> e = NumericOverflow"
proof -
  from ok have dk: "distinct (item_ids_of (stock_levels s))"
    by (simp add: schema_ok_def unique_item_id_def)
  have both: "((\<exists>e. upsert_stock_level ts k l s = Inl e) \<longleftrightarrow>
         \<not> (decimal_15_3 (Some (current_stock l)) \<and> decimal_15_3 (Some (physical_baseline l)) \<and>
            decimal_15_3 (Some (tally_delta l)))) \<and>
        (\<forall>e. upsert_stock_level ts k l s = Inl e \<longrightarrow> e = NumericOverflow)"
  proof (cases "find (\<lambda>x. sl_item_id x = Some k) (stock_levels s)")
    case None
    then have "k \<notin> set (item_ids_of (stock_levels s))"
      by (auto simp: find_None_iff in_item_ids_of)
    with None k fresh_uuid_new [of "map sl_id (stock_levels s)"] show ?thesis
      by (simp add: upsert_stock_level_def insert_stock_level_def quantities_ok_def fk_ok_def)
  next
    case (Some y)
    then have y: "y \<in> set (stock_levels s)" "sl_item_id y = Some k" by (auto dest: find_Some_set)
    have no_clash: "k \<notin> set (item_ids_of (filter (\<lambda>z. sl_id z \<noteq> sl_id y) (stock_levels s)))"
    proof
      assume "k \<in> set (item_ids_of (filter (\<lambda>z. sl_id z \<noteq> sl_id y) (stock_levels s)))"
      then obtain z where z: "z \<in> set (stock_levels s)" "sl_id z \<noteq> sl_id y" "sl_item_id z = Some k"
        by (auto simp: in_item_ids_of)
      from z(1,3) have "z \<in> set (filter (\<lambda>z. sl_item_id z = Some k) (stock_levels s))"
        by simp
      then have "z \<in> set [y]"
        unfolding only_stock_level [OF dk y] .
      with z(2) show False by simp
    qed
    from y(1) have "sl_id y \<in> set (map sl_id (stock_levels s))" by (simp add: image_iff) blast
    with Some y(2) k no_clash show ?thesis
      by (simp add: upsert_stock_level_def update_stock_level_def quantities_ok_def fk_ok_def)
  qed
  from both show "(\<exists>e. upsert_stock_level ts k l s = Inl e) \<longleftrightarrow>
         \<not> (decimal_15_3 (Some (current_stock l)) \<and> decimal_15_3 (Some (physical_baseline l)) \<and>
            decimal_15_3 (Some (tally_delta l)))"
    by blast
  from both show "upsert_stock_level ts k l s = Inl e \<Longrightarrow> e = NumericOverflow" by blast
qed

lemma publish_one_rejected:
  assumes ok: "schema_ok s"
  shows "publish_one now meta row s = Inl e \<longleftrightarrow>
         e = NumericOverflow \<and>
         \<not> (decimal_15_3 (Some (current_stock (p_level row))) \<and>
            decimal_15_3 (Some (physical_baseline (p_level row))) \<and>
            decimal_15_3 (Some (tally_delta (p_level row))))"
proof -
  from ok obtain s' k where up: "upsert_item now (p_item_code row) (p_attrs row) s = Inr (s', k)"
    by (rule upsert_item_total)
  note A = upsert_item_effect [OF ok up]
  from A(4) have k: "k \<in> set (map i_id (items s'))" by (auto simp: image_iff)
  note B = upsert_stock_level_rejected [OF A(1) k, of "run_timestamp meta" "p_level row"]
  have "publish_one now meta row s = upsert_stock_level (run_timestamp meta) k (p_level row) s'"
    using up by (simp add: publish_one_def)
  with B show ?thesis by metis
qed

lemma publish_steps_rejected:
  assumes "fold (publish_step now meta) rows (s, n, None) = (s1, n1, Some e)"
  obtains pre row post where "rows = pre @ row # post"
    and "fold (publish_step now meta) pre (s, n, None) = (s1, n + length pre, None)"
    and "publish_one now meta row s1 = Inl e" and "n1 = n + length pre"
  using assms
proof (induction rows arbitrary: s n thesis)
  case Nil
  then show ?case by simp
next
  case (Cons r rows)
  show ?case
  proof (cases "publish_one now meta r s")
    case (Inl e')
    have "fold (publish_step now meta) (r # rows) (s, n, None) = (s, n, Some e')"
      by (simp add: publish_step_simps(2) [OF Inl] publish_steps_after_error)
    with Cons.prems(2) have eq: "s1 = s" "n1 = n" "e = e'" by simp_all
    show ?thesis
      by (rule Cons.prems(1) [of "[]" r rows]) (simp_all add: eq Inl)
  next
    case (Inr s2)
    have "fold (publish_step now meta) (r # rows) (s, n, None) =
          fold (publish_step now meta) rows (s2, Suc n, None)"
      by (simp add: publish_step_simps(3) [OF Inr])
    with Cons.prems(2)
    have rest: "fold (publish_step now meta) rows (s2, Suc n, None) = (s1, n1, Some e)" by simp
    show ?thesis
    proof (rule Cons.IH [OF _ rest])
      fix pre row post
      assume a: "rows = pre @ row # post"
        and b: "fold (publish_step now meta) pre (s2, Suc n, None) = (s1, Suc n + length pre, None)"
        and c: "publish_one now meta row s1 = Inl e" and d: "n1 = Suc n + length pre"
      show thesis
      proof (rule Cons.prems(1) [of "r # pre" row post])
        show "r # rows = (r # pre) @ row # post" using a by simp
        show "fold (publish_step now meta) (r # pre) (s, n, None) = (s1, n + length (r # pre), None)"
          using b by (simp add: publish_step_simps(3) [OF Inr])
        show "publish_one now meta row s1 = Inl e" by (rule c)
        show "n1 = n + length (r # pre)" using d by simp
      qed
    qed
  qed
qed

lemma publish_items_again:
  assumes ok: "schema_ok s" and d: "distinct (map p_item_code rows)"
    and p1: "publish_items t1 meta rows s = (s1, n1, e1)"
    and ok': "schema_ok s'" and its: "items s' = items s1" and sls: "stock_levels s' = stock_levels s1"
  shows "publish_items t2 meta rows s' = (s', n1, e1)"
proof (cases e1)
  case None
  with p1 have p1': "publish_items t1 meta rows s = (s1, n1, None)" by simp
  note S1 = publish_items_success [OF ok p1' d]
  have "\<forall>row \<in> set rows. published meta row s'"
    using S1(4) by (simp add: published_cong [OF its sls])
  from publish_steps_again [OF ok' this, of t2 0] S1(2) None show ?thesis
    by (simp add: publish_items_def)
next
  case (Some e)
  with p1 have f: "fold (publish_step t1 meta) rows (s, 0, None) = (s1, n1, Some e)"
    by (simp add: publish_items_def)
  from f obtain pre row post where rows: "rows = pre @ row # post"
    and fp: "fold (publish_step t1 meta) pre (s, 0, None) = (s1, 0 + length pre, None)"
    and rej: "publish_one t1 meta row s1 = Inl e" and n1: "n1 = 0 + length pre"
    by (rule publish_steps_rejected)
  from d rows have dp: "distinct (map p_item_code pre)" by simp
  from publish_steps_schema_ok [OF ok fp] have ok1: "schema_ok s1" by simp
  from publish_steps_published [OF ok fp dp]
  have "\<forall>r \<in> set pre. published meta r s'" by (simp add: published_cong [OF its sls])
  from publish_steps_again [OF ok' this, of t2 0]
  have pre2: "fold (publish_step t2 meta) pre (s', 0, None) = (s', length pre, None)" by simp
  from rej have "publish_one t2 meta row s' = Inl e"
    unfolding publish_one_rejected [OF ok1] publish_one_rejected [OF ok'] .
  then have "fold (publish_step t2 meta) (row # post) (s', length pre, None) = (s', length pre, Some e)"
    by (simp add: publish_step_simps(2) publish_steps_after_error)
  with pre2 have "fold (publish_step t2 meta) rows (s', 0, None) = (s', length pre, Some e)"
    unfolding rows by simp
  with n1 Some show ?thesis by (simp add: publish_items_def)
qed


section \<open>Aggregation\<close>

lemma aggregate_Inr:
  assumes "aggregate connectors since = Inr agg"
  shows "agg = fold (aggregate_connector since) connectors empty_aggregation"
  using assms by (simp add: aggregate_def Let_def split: if_splits)

lemma aggregate_delta:
  assumes "aggregate connectors since = Inr agg"
  shows "delta_of (agg_deltas agg) c =
         (\<Sum>k\<leftarrow>filter (succeeded since) connectors. item_delta c (movements_of since k))"
proof -
  have "delta_of (agg_deltas empty_aggregation) c = 0"
    by (simp add: empty_aggregation_def delta_of_def coalesce_def)
  then show ?thesis
    unfolding aggregate_Inr [OF assms] by (simp add: fold_aggregate_connector(1))
qed

lemma aggregate_keys:
  assumes "aggregate connectors since = Inr agg"
  shows "set (map fst (agg_deltas agg)) = (\<Union>k \<in> set connectors. set (codes_of since k))"
    and "distinct (map fst (agg_deltas agg))"
  unfolding aggregate_Inr [OF assms]
  by (simp_all add: fold_aggregate_connector(2,3) empty_aggregation_def del: set_map)

text \<open>
  C2. For every item code, the aggregated delta is the sum, over the connectors that
  were queried successfully, of the item's quantity deltas in that connector; a source
  without the item contributes the empty sum, zero.
\<close>

theorem aggregated_delta_is_sum_over_sources:
  assumes "aggregate connectors since = Inr agg"
  shows "delta_of (agg_deltas agg) c =
         (\<Sum>k\<leftarrow>filter (succeeded since) connectors. item_delta c (movements_of since k))"
  using assms by (rule aggregate_delta)

lemma aggregate_ab: "aggregate [company_a, company_down, company_b] 0 = Inr merged_ab"
  by (simp add: aggregate_def aggregate_connector_def query_connector_def company_a_def
      company_b_def company_down_def merged_ab_def empty_aggregation_def add_stock_item_def
      add_movement_def add_delta_def coalesce_def brake_row_def units_def)

theorem aggregated_delta_is_sum_over_sources_witness:
  "aggregate [company_a, company_down, company_b] 0 = Inr merged_ab \<and>
   item_delta ''BRAKE001'' (movements_of 0 company_a) = units 25 \<and>
   item_delta ''BRAKE001'' (movements_of 0 company_b) = units 20 \<and>
   \<not> succeeded 0 company_down \<and>
   delta_of (agg_deltas merged_ab) ''BRAKE001'' = units 45"
proof -
  have a: "item_delta ''BRAKE001'' (movements_of 0 company_a) = units 25"
    by (simp add: item_delta_def movements_of_def query_connector_def company_a_def)
  have b: "item_delta ''BRAKE001'' (movements_of 0 company_b) = units 20"
    by (simp add: item_delta_def movements_of_def query_connector_def company_b_def)
  have ok: "succeeded 0 company_a" "succeeded 0 company_b" "\<not> succeeded 0 company_down"
    by (simp_all add: succeeded_def query_connector_def company_a_def company_b_def company_down_def)
  from aggregated_delta_is_sum_over_sources [OF aggregate_ab, of "''BRAKE001''"]
  have "delta_of (agg_deltas merged_ab) ''BRAKE001'' = units 25 + units 20"
    by (simp add: ok a b)
  then have "delta_of (agg_deltas merged_ab) ''BRAKE001'' = units 45"
    by (simp add: units_def)
  with aggregate_ab a b ok(3) show ?thesis by simp
qed

section \<open>The clean slate\<close>

lemma compute_keys:
  "map fst (compute baseline deltas) = remdups (map fst baseline @ map fst deltas)"
  by (simp add: compute_def comp_def)

lemma publish_rows_codes:
  "map p_item_code (publish_rows baseline its deltas) =
     remdups (map fst baseline @ map fst deltas)"
  by (simp add: publish_rows_def compute_def comp_def)

lemma publish_rows_row:
  assumes "c \<in> set (map fst baseline) \<union> set (map fst deltas)"
  shows "\<lparr>p_item_code = c, p_attrs = attrs_for baseline its c,
          p_level = compute_level baseline deltas c\<rparr> \<in> set (publish_rows baseline its deltas)"
proof -
  from assms have "c \<in> set (remdups (map fst baseline @ map fst deltas))" by simp
  then have "(c, compute_level baseline deltas c) \<in> set (compute baseline deltas)"
    unfolding compute_def by (simp add: image_iff)
  then show ?thesis unfolding publish_rows_def by (force simp: image_iff)
qed

text \<open>The windows of a run: each is aggregated, and each item's delta is that of its own.\<close>

lemma aggregate_windows_Inr:
  assumes "aggregate_windows connectors ds = Inr aggs"
  shows "map fst aggs = ds" and "\<forall>(d, agg) \<in> set aggs. aggregate connectors d = Inr agg"
  using assms
proof (induction ds arbitrary: aggs)
  case Nil
  { case 1 then show ?case by simp }
  { case 2 then show ?case by simp }
next
  case (Cons d ds)
  { case 1
    then obtain agg rest where a: "aggregate connectors d = Inr agg"
      and r: "aggregate_windows connectors ds = Inr rest" and e: "aggs = (d, agg) # rest"
      by (auto split: sum.splits)
    from Cons.IH(1) [OF r] e show ?case by simp }
  { case 2
    then obtain agg rest where a: "aggregate connectors d = Inr agg"
      and r: "aggregate_windows connectors ds = Inr rest" and e: "aggs = (d, agg) # rest"
      by (auto split: sum.splits)
    from Cons.IH(2) [OF r] a e show ?case by simp }
qed

lemma since_in_windows: "since \<in> set (windows since baseline)"
  by (simp add: windows_def)

lemma window_start_in_windows: "window_start since baseline c \<in> set (windows since baseline)"
proof (cases "map_of baseline c")
  case None
  then show ?thesis by (simp add: window_start_def windows_def)
next
  case (Some e)
  then have "(c, e) \<in> set baseline" by (rule map_of_SomeD)
  then have "b_baseline_date e \<in> (\<lambda>(c, e). b_baseline_date e) ` set baseline"
    by (force simp: image_iff)
  with Some show ?thesis by (simp add: window_start_def windows_def)
qed

lemma aggregated_window:
  assumes "aggregate_windows connectors (windows since baseline) = Inr aggs"
    and "d \<in> set (windows since baseline)"
  obtains agg where "map_of aggs d = Some agg" and "(d, agg) \<in> set aggs"
    and "aggregate connectors d = Inr agg"
proof -
  note A = aggregate_windows_Inr [OF assms(1)]
  from assms(2) A(1) have "d \<in> fst ` set aggs" by (metis set_map)
  then obtain agg where m: "map_of aggs d = Some agg"
    by (cases "map_of aggs d") (auto simp: map_of_eq_None_iff)
  then have i: "(d, agg) \<in> set aggs" by (rule map_of_SomeD)
  with A(2) have "aggregate connectors d = Inr agg" by auto
  with m i show ?thesis by (rule that)
qed

lemma anchored_delta_sum:
  assumes "aggregate_windows connectors (windows since baseline) = Inr aggs"
  shows "anchored_delta since baseline aggs c =
           (\<Sum>k\<leftarrow>filter (succeeded (window_start since baseline c)) connectors.
              item_delta c (movements_of (window_start since baseline c) k))"
proof -
  from assms window_start_in_windows
  obtain agg where m: "map_of aggs (window_start since baseline c) = Some agg"
    and a: "aggregate connectors (window_start since baseline c) = Inr agg"
    by (rule aggregated_window)
  from m have "anchored_delta since baseline aggs c = delta_of (agg_deltas agg) c"
    by (simp add: anchored_delta_def delta_of_def)
  with aggregate_delta [OF a] show ?thesis by simp
qed

lemma anchored_deltas_keys:
  "set (map fst (anchored_deltas since baseline aggs)) =
     (\<Union>(d, agg) \<in> set aggs. set (map fst (agg_deltas agg)))"
  by (auto simp: anchored_deltas_def comp_def)

lemma anchored_deltas_entry:
  "map_of (anchored_deltas since baseline aggs) c =
     (if c \<in> set (map fst (anchored_deltas since baseline aggs))
      then Some (anchored_delta since baseline aggs c) else None)"
  by (auto simp: anchored_deltas_def map_of_map_restrict restrict_map_def comp_def)

lemma tally_delta_at_anchor:
  "tally_delta (compute_level baseline (anchored_deltas since baseline aggs) c) =
     anchored_delta since baseline aggs c"
proof (cases "c \<in> set (map fst (anchored_deltas since baseline aggs))")
  case True
  then show ?thesis
    by (simp add: compute_level_def Let_def anchored_deltas_entry coalesce_def)
next
  case False
  then have none: "\<forall>(d, agg) \<in> set aggs. c \<notin> set (map fst (agg_deltas agg))"
    unfolding anchored_deltas_keys by blast
  have "anchored_delta since baseline aggs c = 0"
  proof (cases "map_of aggs (window_start since baseline c)")
    case None
    then show ?thesis by (simp add: anchored_delta_def)
  next
    case (Some agg)
    then have "(window_start since baseline c, agg) \<in> set aggs" by (rule map_of_SomeD)
    with none have "c \<notin> set (map fst (agg_deltas agg))" by blast
    then have "map_of (agg_deltas agg) c = None" by (simp add: map_of_eq_None_iff)
    with Some show ?thesis by (simp add: anchored_delta_def coalesce_def)
  qed
  with False show ?thesis
    by (simp add: compute_level_def Let_def anchored_deltas_entry coalesce_def)
qed

text \<open>
  The delta the calculator is given for an item is the sum of the item's quantity deltas
  over the connectors that answered for the window anchored at the item's own baseline
  date.
\<close>

lemma tally_delta_over_own_window:
  assumes "aggregate_windows connectors (windows since baseline) = Inr aggs"
  shows "tally_delta (compute_level baseline (anchored_deltas since baseline aggs) c) =
           (\<Sum>k\<leftarrow>filter (succeeded (window_start since baseline c)) connectors.
              item_delta c (movements_of (window_start since baseline c) k))"
  by (simp add: tally_delta_at_anchor anchored_delta_sum [OF assms])

lemma compute_level_sum:
  "current_stock (compute_level baseline deltas c) =
     physical_baseline (compute_level baseline deltas c) + tally_delta (compute_level baseline deltas c)"
  by (simp add: compute_level_def Let_def)

lemma publish_store:
  assumes "publish now meta rows s = out" and "publish_items now meta rows s = (s1, n, err)"
  shows "items (po_store out) = items s1" and "stock_levels (po_store out) = stock_levels s1"
    and "po_status out = run_status meta err" and "po_items_processed out = n"
  using assms
  by (auto simp: publish_def write_sync_log_def insert_sync_log_def split: sum.splits if_splits)

lemma publish_schema_ok:
  assumes "schema_ok s"
  shows "schema_ok (po_store (publish now meta rows s))"
proof -
  obtain s1 n err where p: "publish_items now meta rows s = (s1, n, err)"
    by (cases "publish_items now meta rows s") auto
  have ok1: "schema_ok s1"
  proof -
    have "\<And>s n e. schema_ok s \<Longrightarrow> schema_ok (fst (fold (publish_step now meta) rows (s, n, e)))"
    proof (induction rows)
      case Nil
      then show ?case by simp
    next
      case (Cons row rows)
      show ?case
      proof (cases e)
        case (Some e')
        with Cons show ?thesis by (simp add: publish_step_def)
      next
        case None
        show ?thesis
        proof (cases "publish_one now meta row s")
          case (Inl e')
          with None Cons show ?thesis by (simp add: publish_step_def)
        next
          case (Inr s')
          then have "schema_ok s'" using Cons.prems publish_one_schema_ok by blast
          with None Inr Cons.IH show ?thesis by (simp add: publish_step_def)
        qed
      qed
    qed
    from this [OF assms, of 0 None] p show ?thesis by (simp add: publish_items_def)
  qed
  show ?thesis
  proof (cases "write_sync_log now meta n err s1")
    case (Inl e)
    with p ok1 show ?thesis by (simp add: publish_def)
  next
    case (Inr s2)
    then have "schema_ok s2"
      using ok1 unfolding write_sync_log_def by (rule insert_sync_log_schema_ok [rotated])
    with p Inr show ?thesis by (simp add: publish_def)
  qed
qed

lemma run_schema_ok:
  assumes "schema_ok s"
  shows "schema_ok (po_store (run started now since baseline connectors s))"
proof (cases "aggregate_windows connectors (windows since baseline)")
  case (Inl e)
  then show ?thesis
    using assms
    by (cases e) (auto simp: run_def Let_def split: sum.splits intro: insert_sync_log_schema_ok)
next
  case (Inr aggs)
  then show ?thesis using assms by (simp add: run_def publish_schema_ok)
qed

text \<open>
  C1. After a run that ends with the status \<open>SUCCESS\<close>, every item code of the baseline
  or of any source has its item row in the store and exactly one stock level row, and
  that row satisfies \<open>current_stock = physical_baseline + tally_delta\<close> as an equation
  between decimals.
\<close>

theorem clean_slate_after_successful_run:
  assumes "schema_ok s"
    and "run started now since baseline connectors s = out"
    and "po_status out = ''SUCCESS''"
    and "c \<in> set (map fst baseline) \<union> (\<Union>k \<in> set connectors. set (codes_of since k))"
  shows "\<exists>x y pb td. x \<in> set (items (po_store out)) \<and> i_item_code x = c \<and>
           stock_levels_of (po_store out) (i_id x) = [y] \<and>
           sl_physical_baseline y = Some pb \<and> sl_tally_delta y = Some td \<and>
           sl_current_stock y = Some (pb + td)"
proof -
  obtain aggs where aggs: "aggregate_windows connectors (windows since baseline) = Inr aggs"
  proof (cases "aggregate_windows connectors (windows since baseline)")
    case (Inl e)
    with assms(2,3) show ?thesis by (cases e) (auto simp: run_def Let_def)
  next
    case (Inr a)
    then show ?thesis by (rule that)
  qed
  from aggs since_in_windows
  obtain agg where agg_in: "(since, agg) \<in> set aggs" and agg: "aggregate connectors since = Inr agg"
    by (rule aggregated_window)
  let ?deltas = "anchored_deltas since baseline aggs"
  let ?its = "source_items aggs"
  let ?meta = "\<lparr>run_timestamp = started, connector_failures = window_failures aggs\<rparr>"
  let ?rows = "publish_rows baseline ?its ?deltas"
  from aggs assms(2) have out: "publish now ?meta ?rows s = out" by (simp add: run_def)
  obtain s1 n err where p: "publish_items now ?meta ?rows s = (s1, n, err)"
    by (cases "publish_items now ?meta ?rows s") auto
  note P = publish_store [OF out p]
  from P(3) assms(3) have "err = None" by (auto simp: run_status_def split: if_splits)
  with p have p': "publish_items now ?meta ?rows s = (s1, n, None)" by simp
  have d: "distinct (map p_item_code ?rows)" by (simp add: publish_rows_codes)
  note S = publish_items_success [OF assms(1) p' d]
  let ?l = "compute_level baseline ?deltas c"
  let ?row = "\<lparr>p_item_code = c, p_attrs = attrs_for baseline ?its c, p_level = ?l\<rparr>"
  from assms(4) aggregate_keys(1) [OF agg]
  have "c \<in> set (map fst baseline) \<union> set (map fst (agg_deltas agg))" by simp
  moreover have "set (map fst (agg_deltas agg)) \<subseteq> set (map fst ?deltas)"
    unfolding anchored_deltas_keys using agg_in by blast
  ultimately have "c \<in> set (map fst baseline) \<union> set (map fst ?deltas)" by blast
  then have "?row \<in> set ?rows" by (rule publish_rows_row)
  with S(4) have "published ?meta ?row s1" by blast
  then obtain x y where x: "x \<in> set (items s1)" "i_item_code x = c"
    and y: "y \<in> set (stock_levels s1)" "level_written started (i_id x) ?l y"
    unfolding published_def item_has_attrs_def by auto
  from S(1) have "distinct (item_ids_of (stock_levels s1))"
    by (simp add: schema_ok_def unique_item_id_def)
  with y have "filter (\<lambda>z. sl_item_id z = Some (i_id x)) (stock_levels s1) = [y]"
    by (intro only_stock_level) (simp_all add: level_written_def)
  then have one: "stock_levels_of (po_store out) (i_id x) = [y]"
    by (simp add: stock_levels_of_def P(2))
  from y(2) have "sl_physical_baseline y = Some (physical_baseline ?l)"
    "sl_tally_delta y = Some (tally_delta ?l)"
    "sl_current_stock y = Some (physical_baseline ?l + tally_delta ?l)"
    by (simp_all add: level_written_def compute_level_sum)
  with x one P(1) show ?thesis by auto
qed

lemma run_47:
  "run 0 4000 19723 baseline_50 [company_1, company_2] empty_store =
     \<lparr>po_store = store_47, po_items_processed = 1, po_status = ''SUCCESS''\<rparr>"
  by (simp add: run_def windows_def window_start_def anchored_deltas_def anchored_delta_def
      source_items_def window_failures_def integers_ok_def int4_def
      aggregate_def aggregate_connector_def query_connector_def company_1_def
      company_2_def empty_aggregation_def add_stock_item_def
      add_movement_def add_delta_def coalesce_def brake_row_def units_def
      publish_def publish_items_def publish_step_def publish_one_def upsert_item_def
      upsert_stock_level_def insert_item_def insert_stock_level_def fresh_uuid_def
      publish_rows_def compute_def compute_level_def attrs_for_def baseline_50_def
      empty_store_def store_47_def brake_published_def brake_level_47_def run_log_def
      write_sync_log_def insert_sync_log_def run_status_def run_error_message_def
      quantities_ok_def decimal_15_3_def fk_ok_def item_ids_of_def status_check_def)

theorem clean_slate_after_successful_run_witness:
  "schema_ok empty_store \<and>
   run 0 4000 19723 baseline_50 [company_1, company_2] empty_store =
     \<lparr>po_store = store_47, po_items_processed = 1, po_status = ''SUCCESS''\<rparr> \<and>
   ''BRAKE001'' \<in> set (map fst baseline_50) \<and>
   stock_levels store_47 = [brake_level_47] \<and>
   (\<exists>x y pb td. x \<in> set (items store_47) \<and> i_item_code x = ''BRAKE001'' \<and>
      stock_levels_of store_47 (i_id x) = [y] \<and>
      sl_physical_baseline y = Some pb \<and> sl_tally_delta y = Some td \<and>
      sl_current_stock y = Some (pb + td))"
proof -
  have h3: "po_status \<lparr>po_store = store_47, po_items_processed = 1, po_status = ''SUCCESS''\<rparr> = ''SUCCESS''"
    by simp
  have h4: "''BRAKE001'' \<in> set (map fst baseline_50) \<union>
            (\<Union>k \<in> set [company_1, company_2]. set (codes_of 19723 k))"
    by (simp add: baseline_50_def)
  from clean_slate_after_successful_run [OF empty_store_schema_ok run_47 h3 h4]
  have "\<exists>x y pb td. x \<in> set (items store_47) \<and> i_item_code x = ''BRAKE001'' \<and>
      stock_levels_of store_47 (i_id x) = [y] \<and>
      sl_physical_baseline y = Some pb \<and> sl_tally_delta y = Some td \<and>
      sl_current_stock y = Some (pb + td)"
    by simp
  moreover have "''BRAKE001'' \<in> set (map fst baseline_50)" by (simp add: baseline_50_def)
  moreover have "stock_levels store_47 = [brake_level_47]" by (simp add: store_47_def)
  ultimately show ?thesis using empty_store_schema_ok run_47 by blast
qed

section \<open>The view\<close>

lemma set_inventory_view:
  "set (inventory_view s) = (\<lambda>(i, sl). view_row i sl) ` set (left_join (items s) (stock_levels s))"
  by (simp add: inventory_view_def)

lemma left_join_if:
  "left_join its sls =
     concat (map (\<lambda>i. if filter (\<lambda>sl. sl_item_id sl = Some (i_id i)) sls = [] then [(i, None)]
                       else map (\<lambda>sl. (i, Some sl)) (filter (\<lambda>sl. sl_item_id sl = Some (i_id i)) sls)) its)"
  unfolding left_join_def
  by (rule arg_cong [where f = concat], rule map_cong) (simp_all split: list.split)

lemma in_left_join:
  "(j, x) \<in> set (left_join its sls) \<longleftrightarrow>
     j \<in> set its \<and>
     (case x of None \<Rightarrow> \<forall>sl \<in> set sls. sl_item_id sl \<noteq> Some (i_id j)
      | Some sl \<Rightarrow> sl \<in> set sls \<and> sl_item_id sl = Some (i_id j))"
  by (cases x) (auto simp: left_join_if filter_empty_conv)

text \<open>
  C9. An item that no stock level refers to still has a row in \<open>inventory_view\<close>, and
  only one: its three quantities are 0, its \<open>sync_source\<close> is \<open>manual\<close> and its
  \<open>last_sync\<close> is the item's \<open>created_at\<close>.
\<close>

theorem item_without_stock_level_in_view:
  assumes "i \<in> set (items s)"
    and "\<forall>sl \<in> set (stock_levels s). sl_item_id sl \<noteq> Some (i_id i)"
    and "pk_items s"
  shows "view_row i None \<in> set (inventory_view s) \<and>
         (\<forall>r \<in> set (inventory_view s). v_id r = i_id i \<longrightarrow> r = view_row i None) \<and>
         view_row i None =
           \<lparr>v_id = i_id i, v_item_code = i_item_code i, v_item_name = i_item_name i,
            v_category = i_category i, v_unit = i_unit i,
            v_current_stock = 0, v_physical_baseline = 0, v_tally_delta = 0,
            v_last_sync = i_created_at i, v_sync_source = ''manual''\<rparr>"
proof (intro conjI ballI impI)
  show "view_row i None \<in> set (inventory_view s)"
  proof -
    have "(i, None) \<in> set (left_join (items s) (stock_levels s))"
      using assms(1,2) by (simp add: in_left_join)
    then show ?thesis by (force simp: set_inventory_view)
  qed
next
  fix r assume r: "r \<in> set (inventory_view s)" and id: "v_id r = i_id i"
  from r obtain j x where jx: "(j, x) \<in> set (left_join (items s) (stock_levels s))"
    and rj: "r = view_row j x"
    by (auto simp: set_inventory_view)
  have "j \<in> set (items s)" using jx by (simp add: in_left_join)
  moreover have "i_id j = i_id i" using id rj by (simp add: view_row_def)
  ultimately have "j = i"
    using assms(1,3) unfolding pk_items_def by (metis distinct_map inj_onD)
  have "x = None"
  proof (cases x)
    case (Some sl)
    with jx have "sl \<in> set (stock_levels s) \<and> sl_item_id sl = Some (i_id j)"
      by (simp add: in_left_join)
    with assms(2) \<open>j = i\<close> show ?thesis by blast
  qed simp
  with rj \<open>j = i\<close> show "r = view_row i None" by simp
next
  show "view_row i None =
          \<lparr>v_id = i_id i, v_item_code = i_item_code i, v_item_name = i_item_name i,
           v_category = i_category i, v_unit = i_unit i,
           v_current_stock = 0, v_physical_baseline = 0, v_tally_delta = 0,
           v_last_sync = i_created_at i, v_sync_source = ''manual''\<rparr>"
    by (simp add: view_row_def coalesce_def coalesce_null_def)
qed

theorem item_without_stock_level_in_view_witness:
  "oil001 \<in> set (items sample_store) \<and>
   list_all (\<lambda>sl. sl_item_id sl \<noteq> Some (i_id oil001)) (stock_levels sample_store) \<and>
   pk_items sample_store \<and>
   \<lparr>v_id = 3, v_item_code = ''OIL001'', v_item_name = ''Engine Oil 5W30'',
    v_category = Some ''Lubricants'', v_unit = Some ''Liter'',
    v_current_stock = 0, v_physical_baseline = 0, v_tally_delta = 0,
    v_last_sync = Some 0, v_sync_source = ''manual''\<rparr> \<in> set (inventory_view sample_store)"
proof -
  have h1: "oil001 \<in> set (items sample_store)"
    by (simp add: sample_store_def)
  have h2: "\<forall>sl \<in> set (stock_levels sample_store). sl_item_id sl \<noteq> Some (i_id oil001)"
    by (simp add: sample_store_def brake001_level_def oil001_def)
  have h3: "pk_items sample_store"
    by (simp add: pk_items_def sample_store_def brake001_def oil001_def)
  note inst = item_without_stock_level_in_view [OF h1 h2 h3]
  have mem: "view_row oil001 None \<in> set (inventory_view sample_store)"
    using inst by (rule conjunct1)
  have row: "view_row oil001 None =
         \<lparr>v_id = i_id oil001, v_item_code = i_item_code oil001, v_item_name = i_item_name oil001,
          v_category = i_category oil001, v_unit = i_unit oil001,
          v_current_stock = 0, v_physical_baseline = 0, v_tally_delta = 0,
          v_last_sync = i_created_at oil001, v_sync_source = ''manual''\<rparr>"
    using inst by (elim conjE)
  from mem have "\<lparr>v_id = i_id oil001, v_item_code = i_item_code oil001, v_item_name = i_item_name oil001,
          v_category = i_category oil001, v_unit = i_unit oil001,
          v_current_stock = 0, v_physical_baseline = 0, v_tally_delta = 0,
          v_last_sync = i_created_at oil001, v_sync_source = ''manual''\<rparr>
        \<in> set (inventory_view sample_store)"
    unfolding row .
  then have "\<lparr>v_id = 3, v_item_code = ''OIL001'', v_item_name = ''Engine Oil 5W30'',
          v_category = Some ''Lubricants'', v_unit = Some ''Liter'',
          v_current_stock = 0, v_physical_baseline = 0, v_tally_delta = 0,
          v_last_sync = Some 0, v_sync_source = ''manual''\<rparr> \<in> set (inventory_view sample_store)"
    by (simp add: oil001_def)
  moreover have "list_all (\<lambda>sl. sl_item_id sl \<noteq> Some (i_id oil001)) (stock_levels sample_store)"
    using h2 by (simp add: list_all_iff)
  ultimately show ?thesis using h1 h3 by blast
qed

section \<open>The log of sync operations\<close>

lemma exec_check_status:
  assumes "check_status s" and "exec now st s = Inr s'"
  shows "check_status s'"
proof (cases st)
  case (InsertSyncLog r)
  with assms show ?thesis
    by (auto simp: check_status_def insert_sync_log_def split: if_splits)
next
  case (UpdateSyncLog r)
  with assms show ?thesis
    by (auto simp: check_status_def update_sync_log_def split: if_splits)
next
  case (DeleteSyncLog k)
  with assms show ?thesis
    by (auto simp: check_status_def delete_sync_log_def)
qed (use assms in \<open>auto simp: check_status_def insert_item_def update_item_def delete_item_def
       insert_stock_level_def update_stock_level_def delete_stock_level_def split: if_splits\<close>)

lemma session_check_status: "check_status s \<Longrightarrow> check_status (session stmts s)"
  unfolding session_def
proof (induction stmts arbitrary: s)
  case Nil
  then show ?case by simp
next
  case (Cons ts stmts)
  have "check_status (attempt ts s)"
    using Cons.prems by (auto simp: attempt_def split: sum.splits intro: exec_check_status)
  then show ?case using Cons.IH by simp
qed

lemma status_check_iff:
  "status_check st \<longleftrightarrow> st = ''SUCCESS'' \<or> st = ''FAILED'' \<or> st = ''ERROR''"
  by (auto simp: status_check_def)

lemma sample_store_schema_ok: "schema_ok sample_store"
  by (simp add: schema_ok_def sample_store_def pk_items_def unique_item_code_def
      pk_stock_levels_def unique_item_id_def decimals_in_range_def pk_sync_logs_def
      check_status_def fk_item_id_def item_ids_of_def brake001_def oil001_def
      brake001_level_def fk_ok_def quantities_ok_def decimal_15_3_def)

section \<open>Items and their stock levels\<close>

text \<open>
  C6, as stated, fails: the column \<open>item_id\<close> is not declared \<open>NOT NULL\<close>, and a NULL
  satisfies both the foreign key and the unique constraint. The store accepts a stock
  level that names no item, here into a store that holds no item at all.
\<close>

theorem stock_level_without_item:
  "exec 0 (InsertStockLevel orphan_level) empty_store =
     Inr \<lparr>items = [], stock_levels = [orphan_level], sync_logs = []\<rparr> \<and>
   sl_item_id orphan_level = None"
  by (simp add: insert_stock_level_def empty_store_def orphan_level_def quantities_ok_def
      decimal_15_3_def fk_ok_def item_ids_of_def)

lemma delete_item_cascade:
  "delete_item k s = Inr s' \<Longrightarrow> stock_levels_of s' k = [] \<and> (\<forall>i \<in> set (items s'). i_id i \<noteq> k)"
  by (auto simp: delete_item_def stock_levels_of_def filter_empty_conv)

text \<open>
  C6, amended. Whatever statements are run against a store that satisfies the schema:
  every item has at most one stock level row (\<open>item_id\<close> is unique); a stock level row
  whose \<open>item_id\<close> is set is never there without the item it names; and deleting an item
  succeeds and removes its stock level with it.
\<close>

theorem item_stock_level_correspondence:
  assumes "schema_ok s"
  shows "(\<forall>k. length (stock_levels_of (session stmts s) k) \<le> 1) \<and>
         (\<forall>sl \<in> set (stock_levels (session stmts s)). \<forall>k. sl_item_id sl = Some k \<longrightarrow>
            (\<exists>i \<in> set (items (session stmts s)). i_id i = k)) \<and>
         (\<forall>k. \<exists>s'. exec now (DeleteItem k) (session stmts s) = Inr s' \<and>
            stock_levels_of s' k = [] \<and> (\<forall>i \<in> set (items s'). i_id i \<noteq> k))"
proof -
  have ok: "schema_ok (session stmts s)" using assms by (rule session_schema_ok)
  have "distinct (item_ids_of (stock_levels (session stmts s)))"
    using ok by (simp add: schema_ok_def unique_item_id_def)
  then have one: "\<forall>k. length (stock_levels_of (session stmts s) k) \<le> 1"
    unfolding stock_levels_of_def by (blast intro: at_most_one_stock_level)
  have owned: "\<forall>sl \<in> set (stock_levels (session stmts s)). \<forall>k. sl_item_id sl = Some k \<longrightarrow>
            (\<exists>i \<in> set (items (session stmts s)). i_id i = k)"
    using ok unfolding schema_ok_def fk_item_id_def fk_ok_def
    by (auto split: option.splits)
  have cascade: "\<forall>k. \<exists>s'. exec now (DeleteItem k) (session stmts s) = Inr s' \<and>
            stock_levels_of s' k = [] \<and> (\<forall>i \<in> set (items s'). i_id i \<noteq> k)"
  proof
    fix k
    obtain s' where d: "delete_item k (session stmts s) = Inr s'"
      by (simp add: delete_item_def)
    with delete_item_cascade [OF d] show "\<exists>s'. exec now (DeleteItem k) (session stmts s) = Inr s' \<and>
            stock_levels_of s' k = [] \<and> (\<forall>i \<in> set (items s'). i_id i \<noteq> k)"
      by auto
  qed
  from one owned cascade show ?thesis by blast
qed

theorem item_stock_level_correspondence_witness:
  "schema_ok sample_store \<and>
   session [(5, InsertStockLevel brake001_second_level)] sample_store = sample_store \<and>
   length (stock_levels_of (session [(5, InsertStockLevel brake001_second_level)] sample_store) 1) \<le> 1 \<and>
   exec 6 (DeleteItem 1) sample_store = Inr \<lparr>items = [oil001], stock_levels = [], sync_logs = []\<rparr>"
proof -
  have rejected: "session [(5, InsertStockLevel brake001_second_level)] sample_store = sample_store"
    by (simp add: session_def attempt_def insert_stock_level_def sample_store_def
        brake001_second_level_def brake001_level_def quantities_ok_def decimal_15_3_def
        item_ids_of_def)
  from item_stock_level_correspondence [OF sample_store_schema_ok,
      of "[(5, InsertStockLevel brake001_second_level)]" 6]
  have "length (stock_levels_of (session [(5, InsertStockLevel brake001_second_level)] sample_store) 1) \<le> 1"
    by blast
  moreover have "exec 6 (DeleteItem 1) sample_store =
      Inr \<lparr>items = [oil001], stock_levels = [], sync_logs = []\<rparr>"
    by (simp add: delete_item_def sample_store_def brake001_def oil001_def brake001_level_def)
  ultimately show ?thesis using sample_store_schema_ok rejected by simp
qed

section \<open>The fields of a log record\<close>

lemma publish_steps_sync_logs:
  assumes "schema_ok s" and "fold (publish_step now meta) rows (s, n, e) = (s', n', e')"
  shows "sync_logs s' = sync_logs s"
  using assms
proof (induction rows arbitrary: s n e)
  case Nil
  then show ?case by simp
next
  case (Cons row rows)
  show ?case
  proof (cases e)
    case (Some err)
    with Cons.prems(2) show ?thesis by (simp only: publish_steps_after_error) simp
  next
    case None
    show ?thesis
    proof (cases "publish_one now meta row s")
      case (Inl err)
      have "fold (publish_step now meta) (row # rows) (s, n, None) = (s, n, Some err)"
        by (simp add: publish_step_simps(2) [OF Inl] publish_steps_after_error)
      with None Cons.prems(2) show ?thesis by simp
    next
      case (Inr s1)
      have ok1: "schema_ok s1" using Cons.prems(1) Inr by (rule publish_one_schema_ok)
      have l1: "sync_logs s1 = sync_logs s" using Cons.prems(1) Inr by (rule publish_one_sync_logs)
      have "fold (publish_step now meta) (row # rows) (s, n, None) =
            fold (publish_step now meta) rows (s1, Suc n, None)"
        by (simp add: publish_step_simps(3) [OF Inr])
      with None Cons.prems(2)
      have "fold (publish_step now meta) rows (s1, Suc n, None) = (s', n', e')" by simp
      from Cons.IH [OF ok1 this] l1 show ?thesis by simp
    qed
  qed
qed

lemma run_status_valid: "status_check (run_status meta err)"
  by (simp add: run_status_def status_check_def)

lemma run_error_message_None:
  "run_error_message meta err = None \<longleftrightarrow> run_status meta err = ''SUCCESS''"
  by (simp add: run_error_message_def run_status_def)

lemma publish_writes_log:
  assumes "schema_ok s" and "publish now meta rows s = out"
    and "int4 (Some (int (po_items_processed out)))"
    and "int4 (Some ((now - run_timestamp meta) div 1000))"
  shows "\<exists>l. sync_logs (po_store out) = sync_logs s @ [l] \<and>
           sync_timestamp l = Some (run_timestamp meta) \<and>
           items_processed l = Some (int (po_items_processed out)) \<and>
           status l = po_status out \<and>
           duration_seconds l = Some ((now - run_timestamp meta) div 1000) \<and>
           (error_message l = None \<longleftrightarrow> status l = ''SUCCESS'')"
proof -
  obtain s1 n err where p: "publish_items now meta rows s = (s1, n, err)"
    by (cases "publish_items now meta rows s") auto
  then have "fold (publish_step now meta) rows (s, 0, None) = (s1, n, err)"
    by (simp add: publish_items_def)
  with assms(1) have logs: "sync_logs s1 = sync_logs s" by (rule publish_steps_sync_logs)
  from assms(2) p have n: "po_items_processed out = n" and st: "po_status out = run_status meta err"
    by (auto simp: publish_def)
  let ?l = "\<lparr>log_id = fresh_uuid (map log_id (sync_logs s1)),
        sync_timestamp = Some (run_timestamp meta), items_processed = Some (int n),
        status = run_status meta err, error_message = run_error_message meta err,
        duration_seconds = Some ((now - run_timestamp meta) div 1000)\<rparr>"
  have "integers_ok ?l" using assms(3,4) n by (simp add: integers_ok_def)
  then have "write_sync_log now meta n err s1 = Inr (s1\<lparr>sync_logs := sync_logs s1 @ [?l]\<rparr>)"
    using fresh_uuid_new [of "map log_id (sync_logs s1)"]
    by (simp add: write_sync_log_def insert_sync_log_def run_status_valid)
  with assms(2) p have "sync_logs (po_store out) = sync_logs s1 @ [?l]"
    by (auto simp: publish_def)
  with logs n st show ?thesis
    by (intro exI [of _ ?l]) (simp add: run_error_message_None)
qed

lemma run_writes_log:
  assumes "schema_ok s" and "run started now since baseline connectors s = out"
    and "int4 (Some (int (po_items_processed out)))"
    and "int4 (Some ((now - started) div 1000))"
  shows "\<exists>l. sync_logs (po_store out) = sync_logs s @ [l] \<and>
           sync_timestamp l = Some started \<and>
           items_processed l = Some (int (po_items_processed out)) \<and>
           status l = po_status out \<and>
           duration_seconds l = Some ((now - started) div 1000) \<and>
           (error_message l = None \<longleftrightarrow> status l = ''SUCCESS'')"
proof (cases "aggregate_windows connectors (windows since baseline)")
  case (Inl e)
  let ?l = "\<lparr>log_id = fresh_uuid (map log_id (sync_logs s)),
             sync_timestamp = Some started, items_processed = Some 0,
             status = ''ERROR'', error_message = Some ''all connectors failed'',
             duration_seconds = Some ((now - started) div 1000)\<rparr>"
  have "integers_ok ?l" using assms(4) by (simp add: integers_ok_def int4_def)
  then have "insert_sync_log ?l s = Inr (s\<lparr>sync_logs := sync_logs s @ [?l]\<rparr>)"
    using fresh_uuid_new [of "map log_id (sync_logs s)"]
    by (simp add: insert_sync_log_def status_check_def)
  with Inl assms(2) have "out = \<lparr>po_store = s\<lparr>sync_logs := sync_logs s @ [?l]\<rparr>,
      po_items_processed = 0, po_status = ''ERROR''\<rparr>"
    by (cases e) (simp add: run_def Let_def)
  then show ?thesis by (intro exI [of _ ?l]) simp
next
  case (Inr aggs)
  let ?meta = "\<lparr>run_timestamp = started, connector_failures = window_failures aggs\<rparr>"
  from Inr assms(2)
  have "publish now ?meta
          (publish_rows baseline (source_items aggs) (anchored_deltas since baseline aggs)) s = out"
    by (simp add: run_def)
  from publish_writes_log [OF assms(1) this] assms(3,4) show ?thesis by simp
qed

text \<open>
  C8, as stated, fails. Of the five fields only \<open>status\<close> is \<open>NOT NULL\<close>. The store
  accepts a log row whose \<open>sync_timestamp\<close>, \<open>items_processed\<close> and
  \<open>duration_seconds\<close> are all NULL, so a stored record need not carry them.
\<close>

theorem sync_log_without_fields:
  "exec 0 (InsertSyncLog bare_log) empty_store =
     Inr \<lparr>items = [], stock_levels = [], sync_logs = [bare_log]\<rparr> \<and>
   status bare_log = ''SUCCESS'' \<and>
   sync_timestamp bare_log = None \<and> items_processed bare_log = None \<and>
   duration_seconds bare_log = None"
  by (simp add: insert_sync_log_def integers_ok_def int4_def status_check_def empty_store_def
      bare_log_def)

text \<open>
  C8, amended. Every stored log record has a status drawn from exactly \<open>SUCCESS\<close>,
  \<open>FAILED\<close>, \<open>ERROR\<close>: whatever statements are run and whatever a run of the engine
  writes, no stored record holds another status, and a record with another status is
  rejected. The store lets \<open>sync_timestamp\<close>, \<open>items_processed\<close>, \<open>error_message\<close> and
  \<open>duration_seconds\<close> be NULL. The one record a run of the engine appends carries the
  run's timestamp, the number of items processed, the run's status and the duration in
  seconds (as long as the two numbers fit the 32 bits of \<open>INTEGER\<close>), and its
  \<open>error_message\<close> is NULL exactly when the status is \<open>SUCCESS\<close>.
\<close>

theorem sync_log_records:
  assumes "schema_ok s" and "run started now since baseline connectors s = out"
  shows "(\<forall>l \<in> set (sync_logs (session stmts s)).
            status l = ''SUCCESS'' \<or> status l = ''FAILED'' \<or> status l = ''ERROR'') \<and>
         (\<forall>l \<in> set (sync_logs (po_store out)).
            status l = ''SUCCESS'' \<or> status l = ''FAILED'' \<or> status l = ''ERROR'') \<and>
         (\<not> (status r = ''SUCCESS'' \<or> status r = ''FAILED'' \<or> status r = ''ERROR'') \<longrightarrow>
            (\<exists>e. insert_sync_log r s = Inl e)) \<and>
         (int4 (Some (int (po_items_processed out))) \<and> int4 (Some ((now - started) div 1000)) \<longrightarrow>
            (\<exists>l. sync_logs (po_store out) = sync_logs s @ [l] \<and>
               sync_timestamp l = Some started \<and>
               items_processed l = Some (int (po_items_processed out)) \<and>
               status l = po_status out \<and>
               duration_seconds l = Some ((now - started) div 1000) \<and>
               (error_message l = None \<longleftrightarrow> status l = ''SUCCESS'')))"
proof (intro conjI)
  have "check_status (session stmts s)"
    using assms(1) by (intro session_check_status) (simp add: schema_ok_def)
  then show "\<forall>l \<in> set (sync_logs (session stmts s)).
            status l = ''SUCCESS'' \<or> status l = ''FAILED'' \<or> status l = ''ERROR''"
    by (simp add: check_status_def status_check_iff)
next
  have "schema_ok (po_store (run started now since baseline connectors s))"
    using assms(1) by (rule run_schema_ok)
  then show "\<forall>l \<in> set (sync_logs (po_store out)).
            status l = ''SUCCESS'' \<or> status l = ''FAILED'' \<or> status l = ''ERROR''"
    unfolding assms(2) by (simp add: schema_ok_def check_status_def status_check_iff)
next
  show "\<not> (status r = ''SUCCESS'' \<or> status r = ''FAILED'' \<or> status r = ''ERROR'') \<longrightarrow>
            (\<exists>e. insert_sync_log r s = Inl e)"
    by (simp add: insert_sync_log_def status_check_iff)
next
  show "int4 (Some (int (po_items_processed out))) \<and> int4 (Some ((now - started) div 1000)) \<longrightarrow>
            (\<exists>l. sync_logs (po_store out) = sync_logs s @ [l] \<and>
               sync_timestamp l = Some started \<and>
               items_processed l = Some (int (po_items_processed out)) \<and>
               status l = po_status out \<and>
               duration_seconds l = Some ((now - started) div 1000) \<and>
               (error_message l = None \<longleftrightarrow> status l = ''SUCCESS''))"
    using run_writes_log [OF assms] by blast
qed

theorem sync_log_records_witness:
  "schema_ok empty_store \<and>
   run 0 4000 19723 baseline_50 [company_1, company_2] empty_store =
     \<lparr>po_store = store_47, po_items_processed = 1, po_status = ''SUCCESS''\<rparr> \<and>
   sync_logs (session [(0, InsertSyncLog success_log), (9, InsertSyncLog partial_log)] empty_store)
     = [success_log] \<and>
   list_all (\<lambda>l. status l = ''SUCCESS'' \<or> status l = ''FAILED'' \<or> status l = ''ERROR'')
     (sync_logs (session [(0, InsertSyncLog success_log), (9, InsertSyncLog partial_log)] empty_store)) \<and>
   status partial_log = ''PARTIAL'' \<and>
   (\<exists>e. insert_sync_log partial_log empty_store = Inl e) \<and>
   (\<exists>l. sync_logs store_47 = sync_logs empty_store @ [l] \<and>
      sync_timestamp l = Some 0 \<and> items_processed l = Some 1 \<and> status l = ''SUCCESS'' \<and>
      duration_seconds l = Some 4 \<and> error_message l = None)"
proof -
  have logs: "sync_logs (session [(0, InsertSyncLog success_log), (9, InsertSyncLog partial_log)] empty_store)
     = [success_log]"
    by (simp add: session_def attempt_def insert_sync_log_def status_check_def empty_store_def
        integers_ok_def int4_def success_log_def partial_log_def)
  have p: "status partial_log = ''PARTIAL''" by (simp add: partial_log_def)
  note inst = sync_log_records [OF empty_store_schema_ok run_47,
      of "[(0, InsertSyncLog success_log), (9, InsertSyncLog partial_log)]" partial_log]
  from inst
  have a: "list_all (\<lambda>l. status l = ''SUCCESS'' \<or> status l = ''FAILED'' \<or> status l = ''ERROR'')
     (sync_logs (session [(0, InsertSyncLog success_log), (9, InsertSyncLog partial_log)] empty_store))"
    unfolding list_all_iff by blast
  from inst p have b: "\<exists>e. insert_sync_log partial_log empty_store = Inl e" by simp
  have "int4 (Some (int 1))" "int4 (Some ((4000 - 0) div 1000))" by (simp_all add: int4_def)
  with inst obtain l where "sync_logs store_47 = sync_logs empty_store @ [l]"
      "sync_timestamp l = Some 0" "items_processed l = Some 1" "status l = ''SUCCESS''"
      "duration_seconds l = Some 4" "error_message l = None \<longleftrightarrow> status l = ''SUCCESS''"
    by auto
  then have "\<exists>l. sync_logs store_47 = sync_logs empty_store @ [l] \<and>
      sync_timestamp l = Some 0 \<and> items_processed l = Some 1 \<and> status l = ''SUCCESS'' \<and>
      duration_seconds l = Some 4 \<and> error_message l = None"
    by blast
  with empty_store_schema_ok run_47 logs a p b show ?thesis by blast
qed

section \<open>Publishing is idempotent\<close>

text \<open>
  C7. Publishing the same rows (one per item code) with the same run metadata a second
  time, at whatever time, leaves the tables \<open>items\<close> and \<open>stock_levels\<close> exactly as the
  first publish left them, and ends with the same status and the same number of items
  processed: no statement is issued for an item whose name, category and unit are as
  stored, the stock level is rewritten with the values it holds, and a row the store
  rejected is rejected again. When the first publish was not rejected there is exactly
  one item row for each item code and exactly one stock level row for each of these
  items.
\<close>

theorem publish_twice:
  assumes "schema_ok s" and "distinct (map p_item_code rows)"
    and "publish t1 meta rows s = out1"
    and "publish t2 meta rows (po_store out1) = out2"
  shows "items (po_store out2) = items (po_store out1) \<and>
         stock_levels (po_store out2) = stock_levels (po_store out1) \<and>
         po_status out2 = po_status out1 \<and>
         po_items_processed out2 = po_items_processed out1 \<and>
         (po_status out1 \<noteq> ''ERROR'' \<longrightarrow>
            po_items_processed out2 = length rows \<and>
            (\<forall>row \<in> set rows. \<exists>x y.
               filter (\<lambda>z. i_item_code z = p_item_code row) (items (po_store out2)) = [x] \<and>
               stock_levels_of (po_store out2) (i_id x) = [y]))"
proof -
  obtain s1 n1 e1 where p1: "publish_items t1 meta rows s = (s1, n1, e1)"
    by (cases "publish_items t1 meta rows s") auto
  note P1 = publish_store [OF assms(3) p1]
  let ?s1 = "po_store out1"
  have ok1: "schema_ok ?s1"
    using publish_schema_ok [OF assms(1), of t1 meta rows] assms(3) by simp
  have p2: "publish_items t2 meta rows ?s1 = (?s1, n1, e1)"
    using assms(1,2) p1 ok1 P1(1,2) by (rule publish_items_again)
  note P2 = publish_store [OF assms(4) p2]
  have same: "items (po_store out2) = items ?s1" "stock_levels (po_store out2) = stock_levels ?s1"
    "po_status out2 = po_status out1" "po_items_processed out2 = po_items_processed out1"
    using P1 P2 by simp_all
  have "po_items_processed out2 = length rows \<and>
            (\<forall>row \<in> set rows. \<exists>x y.
               filter (\<lambda>z. i_item_code z = p_item_code row) (items (po_store out2)) = [x] \<and>
               stock_levels_of (po_store out2) (i_id x) = [y])"
    if st: "po_status out1 \<noteq> ''ERROR''"
  proof -
    from P1(3) st have "e1 = None" by (auto simp: run_status_def split: if_splits)
    with p1 have p1': "publish_items t1 meta rows s = (s1, n1, None)" by simp
    note S1 = publish_items_success [OF assms(1) p1' assms(2)]
    have pub1: "\<forall>row \<in> set rows. published meta row ?s1"
      using S1(4) by (simp add: published_cong [OF P1(1,2)])
    have each: "\<forall>row \<in> set rows. \<exists>x y.
            filter (\<lambda>z. i_item_code z = p_item_code row) (items (po_store out2)) = [x] \<and>
            stock_levels_of (po_store out2) (i_id x) = [y]"
    proof
      fix row assume "row \<in> set rows"
      with pub1 have "published meta row ?s1" by blast
      then obtain x y where x: "x \<in> set (items ?s1)" "i_item_code x = p_item_code row"
        and y: "y \<in> set (stock_levels ?s1)" "sl_item_id y = Some (i_id x)"
        unfolding published_def item_has_attrs_def level_written_def by blast
      from ok1 have dc: "distinct (map i_item_code (items ?s1))"
        and dk: "distinct (item_ids_of (stock_levels ?s1))"
        by (simp_all add: schema_ok_def unique_item_code_def unique_item_id_def)
      have "filter (\<lambda>z. i_item_code z = p_item_code row) (items ?s1) = [x]"
        using dc x by (rule only_row)
      moreover have "stock_levels_of ?s1 (i_id x) = [y]"
        unfolding stock_levels_of_def using dk y by (rule only_stock_level)
      ultimately show "\<exists>x y.
            filter (\<lambda>z. i_item_code z = p_item_code row) (items (po_store out2)) = [x] \<and>
            stock_levels_of (po_store out2) (i_id x) = [y]"
        unfolding stock_levels_of_def same(1,2) by blast
    qed
    from S1(2) P1(4) same(4) have "po_items_processed out2 = length rows" by simp
    with each show ?thesis by blast
  qed
  with same show ?thesis by blast
qed


theorem publish_twice_witness:
  "schema_ok empty_store \<and> distinct (map p_item_code rows_47) \<and>
   publish 4000 meta_0 rows_47 empty_store =
     \<lparr>po_store = store_47, po_items_processed = 1, po_status = ''SUCCESS''\<rparr> \<and>
   items (po_store (publish 86404000 meta_0 rows_47 store_47)) = [brake_published] \<and>
   stock_levels (po_store (publish 86404000 meta_0 rows_47 store_47)) = [brake_level_47] \<and>
   po_status (publish 86404000 meta_0 rows_47 store_47) = ''SUCCESS'' \<and>
   po_items_processed (publish 86404000 meta_0 rows_47 store_47) = 1 \<and>
   (\<exists>x y. filter (\<lambda>z. i_item_code z = ''BRAKE001'')
             (items (po_store (publish 86404000 meta_0 rows_47 store_47))) = [x] \<and>
          stock_levels_of (po_store (publish 86404000 meta_0 rows_47 store_47)) (i_id x) = [y])"
proof -
  have d: "distinct (map p_item_code rows_47)" by (simp add: rows_47_def)
  have one: "publish 4000 meta_0 rows_47 empty_store =
     \<lparr>po_store = store_47, po_items_processed = 1, po_status = ''SUCCESS''\<rparr>"
    by (simp add: meta_0_def rows_47_def units_def
      publish_def publish_items_def publish_step_def publish_one_def upsert_item_def
      upsert_stock_level_def insert_item_def insert_stock_level_def fresh_uuid_def
      empty_store_def store_47_def brake_published_def brake_level_47_def run_log_def
      write_sync_log_def insert_sync_log_def run_status_def run_error_message_def
      integers_ok_def int4_def
      quantities_ok_def decimal_15_3_def fk_ok_def item_ids_of_def status_check_def)
  have two: "publish 86404000 meta_0 rows_47
      (po_store \<lparr>po_store = store_47, po_items_processed = 1, po_status = ''SUCCESS''\<rparr>) =
     publish 86404000 meta_0 rows_47 store_47"
    by simp
  note inst = publish_twice [OF empty_store_schema_ok d one two]
  from inst
  have a: "items (po_store (publish 86404000 meta_0 rows_47 store_47)) = [brake_published]"
    and b: "stock_levels (po_store (publish 86404000 meta_0 rows_47 store_47)) = [brake_level_47]"
    and c: "po_status (publish 86404000 meta_0 rows_47 store_47) = ''SUCCESS''"
    and e: "po_items_processed (publish 86404000 meta_0 rows_47 store_47) = 1"
    by (simp_all add: store_47_def)
  have st: "po_status \<lparr>po_store = store_47, po_items_processed = 1, po_status = ''SUCCESS''\<rparr>
              \<noteq> ''ERROR''"
    by simp
  from inst st have "\<forall>row \<in> set rows_47. \<exists>x y.
       filter (\<lambda>z. i_item_code z = p_item_code row)
         (items (po_store (publish 86404000 meta_0 rows_47 store_47))) = [x] \<and>
       stock_levels_of (po_store (publish 86404000 meta_0 rows_47 store_47)) (i_id x) = [y]"
    by blast
  then have f: "\<exists>x y. filter (\<lambda>z. i_item_code z = ''BRAKE001'')
             (items (po_store (publish 86404000 meta_0 rows_47 store_47))) = [x] \<and>
          stock_levels_of (po_store (publish 86404000 meta_0 rows_47 store_47)) (i_id x) = [y]"
    by (simp add: rows_47_def)
  from empty_store_schema_ok d one a b c e f show ?thesis by blast
qed

section \<open>The read side\<close>












lemma sorted_inventory_view: "sorted (map v_item_name (inventory_view s))"
  by (simp add: inventory_view_def)

lemma fetchItems_online_items: "st_items (fetchItems (online s) st) = inventory_view s"
proof -
  have "sort_key v_item_name (inventory_view s) = inventory_view s"
    using sorted_inventory_view by (rule sort_key_id_if_sorted)
  then show ?thesis
    by (simp add: fetchItems_def online_def Let_def split: option.splits)
qed

text \<open>
  C3, as stated, fails. Besides selecting from \<open>inventory_view\<close>, the hook calls the
  function \<open>get_latest_sync_timestamp\<close>, whose body selects from \<open>stock_levels\<close>, and
  listens to the changes of the table \<open>stock_levels\<close>. And the view does not select
  every column of \<open>stock_levels\<close>: two stock levels that differ in their own \<open>id\<close> give
  the same row.
\<close>

theorem read_side_reads_stock_levels:
  "useEffect_requests (online sample_store) =
     [Select ''inventory_view'' ''*'' ''item_name'', Rpc ''get_latest_sync_timestamp'',
      PostgresChanges ''*'' ''public'' ''stock_levels''] \<and>
   map relation_read (useEffect_requests (online sample_store)) =
     [''inventory_view'', ''stock_levels'', ''stock_levels''] \<and>
   sl_id (brake001_level\<lparr>sl_id := 7\<rparr>) \<noteq> sl_id brake001_level \<and>
   view_row brake001 (Some (brake001_level\<lparr>sl_id := 7\<rparr>)) = view_row brake001 (Some brake001_level)"
  by (simp add: useEffect_requests_def fetchItems_requests_def online_def view_row_def
      brake001_level_def)

text \<open>
  C3, amended. The rows the read-side UI shows are those of \<open>inventory_view\<close> and of
  nothing else, ordered by \<open>item_name\<close>; the view has one row for every item and stock
  level that refers to it (and one for an item without any), exposing the item's \<open>id\<close>,
  \<open>item_code\<close>, \<open>item_name\<close>, \<open>category\<close> and \<open>unit\<close> and the stock level's
  \<open>current_stock\<close>, \<open>physical_baseline\<close>, \<open>tally_delta\<close>, \<open>last_sync\<close> and
  \<open>sync_source\<close>, with a default in place of a NULL. Besides the view, the UI calls the
  function \<open>get_latest_sync_timestamp\<close> and subscribes to the changes of
  \<open>stock_levels\<close>.
\<close>

theorem read_side_surfaces:
  "st_items (fetchItems (online s) st) = inventory_view s \<and>
   sorted (map v_item_name (inventory_view s)) \<and>
   set (inventory_view s) = (\<lambda>(i, sl). view_row i sl) ` set (left_join (items s) (stock_levels s)) \<and>
   view_row i (Some sl) =
     \<lparr>v_id = i_id i, v_item_code = i_item_code i, v_item_name = i_item_name i,
      v_category = i_category i, v_unit = i_unit i,
      v_current_stock = coalesce (sl_current_stock sl) 0,
      v_physical_baseline = coalesce (sl_physical_baseline sl) 0,
      v_tally_delta = coalesce (sl_tally_delta sl) 0,
      v_last_sync = coalesce_null (sl_last_sync sl) (i_created_at i),
      v_sync_source = coalesce (sl_sync_source sl) ''manual''\<rparr> \<and>
   useEffect_requests (online s) =
     [Select ''inventory_view'' ''*'' ''item_name'', Rpc ''get_latest_sync_timestamp'',
      PostgresChanges ''*'' ''public'' ''stock_levels'']"
proof (intro conjI)
  show "st_items (fetchItems (online s) st) = inventory_view s"
    by (rule fetchItems_online_items)
  show "sorted (map v_item_name (inventory_view s))"
    by (rule sorted_inventory_view)
  show "set (inventory_view s) = (\<lambda>(i, sl). view_row i sl) ` set (left_join (items s) (stock_levels s))"
    by (rule set_inventory_view)
  show "view_row i (Some sl) =
     \<lparr>v_id = i_id i, v_item_code = i_item_code i, v_item_name = i_item_name i,
      v_category = i_category i, v_unit = i_unit i,
      v_current_stock = coalesce (sl_current_stock sl) 0,
      v_physical_baseline = coalesce (sl_physical_baseline sl) 0,
      v_tally_delta = coalesce (sl_tally_delta sl) 0,
      v_last_sync = coalesce_null (sl_last_sync sl) (i_created_at i),
      v_sync_source = coalesce (sl_sync_source sl) ''manual''\<rparr>"
    by (simp add: view_row_def)
  show "useEffect_requests (online s) =
     [Select ''inventory_view'' ''*'' ''item_name'', Rpc ''get_latest_sync_timestamp'',
      PostgresChanges ''*'' ''public'' ''stock_levels'']"
    by (simp add: useEffect_requests_def fetchItems_requests_def online_def)
qed

theorem read_side_surfaces_witness:
  "st_items (fetchItems (online sample_store) initial_state) =
     [\<lparr>v_id = 1, v_item_code = ''BRAKE001'', v_item_name = ''Brake Pads Front'',
       v_category = Some ''Brakes'', v_unit = Some ''Set'',
       v_current_stock = 25000, v_physical_baseline = 25000, v_tally_delta = 0,
       v_last_sync = Some 0, v_sync_source = ''manual''\<rparr>,
      \<lparr>v_id = 3, v_item_code = ''OIL001'', v_item_name = ''Engine Oil 5W30'',
       v_category = Some ''Lubricants'', v_unit = Some ''Liter'',
       v_current_stock = 0, v_physical_baseline = 0, v_tally_delta = 0,
       v_last_sync = Some 0, v_sync_source = ''manual''\<rparr>]"
proof -
  have "inventory_view sample_store =
     [\<lparr>v_id = 1, v_item_code = ''BRAKE001'', v_item_name = ''Brake Pads Front'',
       v_category = Some ''Brakes'', v_unit = Some ''Set'',
       v_current_stock = 25000, v_physical_baseline = 25000, v_tally_delta = 0,
       v_last_sync = Some 0, v_sync_source = ''manual''\<rparr>,
      \<lparr>v_id = 3, v_item_code = ''OIL001'', v_item_name = ''Engine Oil 5W30'',
       v_category = Some ''Lubricants'', v_unit = Some ''Liter'',
       v_current_stock = 0, v_physical_baseline = 0, v_tally_delta = 0,
       v_last_sync = Some 0, v_sync_source = ''manual''\<rparr>]"
    by (simp add: inventory_view_def left_join_def sample_store_def brake001_def oil001_def
        brake001_level_def view_row_def coalesce_def coalesce_null_def)
  with read_side_surfaces [of sample_store initial_state] show ?thesis by simp
qed

section \<open>Decimal quantities\<close>

lemma coprime_125_pow2: "coprime (125::int) (2 ^ k)"
proof -
  have "coprime (5::int) 2"
  proof (rule coprimeI)
    fix c :: int assume "c dvd 5" "c dvd 2"
    then have "c dvd 5 - 2 * 2" by (intro dvd_diff dvd_mult2)
    then show "is_unit c" by simp
  qed
  then have "coprime ((5::int) ^ 3) (2 ^ k)"
    by (simp only: coprime_power_left_iff coprime_power_right_iff) simp
  then show ?thesis by simp
qed

lemma number_multiple_of_eighth:
  assumes "is_number (dec_value n)"
  shows "125 dvd n"
proof -
  from assms obtain e m where m: "of_int m = scaled (dec_value n) e"
    unfolding is_number_def by metis
  show ?thesis
  proof (cases "0 \<le> e")
    case True
    with m have "(of_int m :: rat) = of_int n / 1000 / 2 ^ nat e"
      by (simp add: scaled_def dec_value_def)
    then have "(of_int n :: rat) = of_int (1000 * m * 2 ^ nat e)"
      by (simp add: field_simps)
    then have "n = 1000 * m * 2 ^ nat e" by (simp only: of_int_eq_iff)
    then have "n = 125 * (8 * m * 2 ^ nat e)" by simp
    then show ?thesis by (rule dvdI)
  next
    case False
    with m have "(of_int m :: rat) = of_int n / 1000 * 2 ^ nat (- e)"
      by (simp add: scaled_def dec_value_def)
    then have "(of_int (n * 2 ^ nat (- e)) :: rat) = of_int (1000 * m)"
      by (simp add: field_simps)
    then have "n * 2 ^ nat (- e) = 1000 * m" by (simp only: of_int_eq_iff)
    then have "n * 2 ^ nat (- e) = 125 * (8 * m)" by simp
    then have "125 dvd n * 2 ^ nat (- e)" by (rule dvdI)
    then show ?thesis using coprime_125_pow2 coprime_dvd_mult_left_iff by blast
  qed
qed

lemma eighth_is_number:
  assumes "125 dvd n" and "\<bar>n\<bar> < 10 ^ 15"
  shows "is_number (dec_value n)"
proof -
  from assms(1) obtain k where k: "n = 125 * k" by (rule dvdE)
  have s: "scaled (dec_value n) (- 3) = of_int k"
    by (simp add: scaled_def dec_value_def k)
  from assms(2) k have "\<bar>k\<bar> < 2 ^ 53" by simp
  with s have "of_int \<lfloor>scaled (dec_value n) (- 3)\<rfloor> = scaled (dec_value n) (- 3) \<and>
      \<bar>\<lfloor>scaled (dec_value n) (- 3)\<rfloor>\<bar> < 2 ^ 53"
    by simp
  moreover have "(- 3 :: int) \<in> set [- 1074..971]" by simp
  ultimately show ?thesis unfolding is_number_def by blast
qed

text \<open>
  C4, as stated, fails at the client. A tenth of a unit, \<open>0.100\<close>, is a value the
  columns hold, and no \<open>number\<close> is equal to it: what the client holds for it is a
  floating-point approximation.
\<close>

theorem tenth_is_not_a_number:
  "decimal_15_3 (Some 100) \<and> dec_value 100 = 1 / 10 \<and> \<not> is_number (dec_value 100)"
proof -
  have "\<not> is_number (dec_value 100)"
    using number_multiple_of_eighth [of 100] by auto
  then show ?thesis by (simp add: decimal_15_3_def dec_value_def)
qed

text \<open>
  C4, amended. In the store and in the view the three quantities are decimals with
  three fractional digits: a stored value stands for a multiple of \<open>0.001\<close> and for no
  other number, the calculator's \<open>current_stock\<close> is the exact sum of baseline and
  delta, and the view hands the stored values on unchanged. The client receives them
  as \<open>number\<close>s, which represent a stored quantity exactly only when it is a multiple
  of \<open>0.125\<close>.
\<close>

theorem decimal_quantities:
  "dec_value n * 1000 = of_int n \<and>
   (dec_value a = dec_value b \<longleftrightarrow> a = b) \<and>
   dec_value (current_stock (compute_level baseline deltas c)) =
     dec_value (physical_baseline (compute_level baseline deltas c)) +
     dec_value (tally_delta (compute_level baseline deltas c)) \<and>
   v_current_stock (view_row i (Some sl)) = coalesce (sl_current_stock sl) 0 \<and>
   v_physical_baseline (view_row i (Some sl)) = coalesce (sl_physical_baseline sl) 0 \<and>
   v_tally_delta (view_row i (Some sl)) = coalesce (sl_tally_delta sl) 0 \<and>
   (\<bar>n\<bar> < 10 ^ 15 \<longrightarrow> (is_number (dec_value n) \<longleftrightarrow> 125 dvd n))"
proof (intro conjI impI)
  show "dec_value n * 1000 = of_int n" by (simp add: dec_value_def)
  show "dec_value a = dec_value b \<longleftrightarrow> a = b" by (simp add: dec_value_def)
  show "dec_value (current_stock (compute_level baseline deltas c)) =
     dec_value (physical_baseline (compute_level baseline deltas c)) +
     dec_value (tally_delta (compute_level baseline deltas c))"
    by (simp add: compute_level_sum dec_value_def add_divide_distrib)
  show "v_current_stock (view_row i (Some sl)) = coalesce (sl_current_stock sl) 0"
    "v_physical_baseline (view_row i (Some sl)) = coalesce (sl_physical_baseline sl) 0"
    "v_tally_delta (view_row i (Some sl)) = coalesce (sl_tally_delta sl) 0"
    by (simp_all add: view_row_def)
  show "is_number (dec_value n) \<longleftrightarrow> 125 dvd n" if "\<bar>n\<bar> < 10 ^ 15"
    using that number_multiple_of_eighth eighth_is_number by blast
qed

theorem decimal_quantities_witness:
  "\<bar>47000 :: int\<bar> < 10 ^ 15 \<and> is_number (dec_value 47000) \<and>
   \<bar>100 :: int\<bar> < 10 ^ 15 \<and> \<not> is_number (dec_value 100) \<and>
   dec_value (current_stock (compute_level baseline_50 (agg_deltas merged_12) ''BRAKE001'')) =
     dec_value (units 50) + dec_value (units (- 3))"
proof -
  have a: "\<bar>47000 :: int\<bar> < 10 ^ 15" and b: "\<bar>100 :: int\<bar> < 10 ^ 15" by simp_all
  note i47 = decimal_quantities [of 47000 0 0 baseline_50 "agg_deltas merged_12" "''BRAKE001''"]
  note i100 = decimal_quantities [of 100]
  have d47: "125 dvd (47000 :: int)" and d100: "\<not> 125 dvd (100 :: int)" by simp_all
  from i47 have "\<bar>47000 :: int\<bar> < 10 ^ 15 \<longrightarrow> (is_number (dec_value 47000) \<longleftrightarrow> 125 dvd (47000 :: int))"
    by blast
  with a d47 have y: "is_number (dec_value 47000)" by blast
  from i100 have "\<bar>100 :: int\<bar> < 10 ^ 15 \<longrightarrow> (is_number (dec_value 100) \<longleftrightarrow> 125 dvd (100 :: int))"
    by blast
  with b d100 have n: "\<not> is_number (dec_value 100)" by blast
  from i47 have "dec_value (current_stock (compute_level baseline_50 (agg_deltas merged_12) ''BRAKE001'')) =
     dec_value (physical_baseline (compute_level baseline_50 (agg_deltas merged_12) ''BRAKE001'')) +
     dec_value (tally_delta (compute_level baseline_50 (agg_deltas merged_12) ''BRAKE001''))"
    by blast
  then have s: "dec_value (current_stock (compute_level baseline_50 (agg_deltas merged_12) ''BRAKE001'')) =
     dec_value (units 50) + dec_value (units (- 3))"
    by (simp add: compute_level_def Let_def merged_12_def baseline_50_def coalesce_def)
  from a b y n s show ?thesis by blast
qed

end
